theory Spec2Isabelle
  imports Main "HOL-Library.Sublist" "HOL-Library.Multiset"
begin

section \<open>The fragment of Python's \<open>re\<close> module that the script uses\<close>

text \<open>
  The patterns of the script are built from literal text, character classes with
  ranges, the greedy repetition \<open>+\<close>, alternation and capturing groups.  \<open>Str l\<close>
  is the literal text \<open>l\<close> (an escaped dot \<open>\.\<close> is the literal dot); a pattern never
  contains an empty literal, and \<open>Str []\<close> matches nothing.  \<open>Class rs\<close> is a
  bracket expression given by its ranges, a single character \<open>c\<close> being the range
  \<open>(c, c)\<close>.  \<open>Group n r\<close> is the \<open>n\<close>-th capturing group.
\<close>

datatype regex =
    Str string
  | Class "(char \<times> char) list"
  | Seq regex regex
  | Alt regex regex
  | Plus regex
  | Group nat regex

type_synonym caps = "(nat \<times> string) list"

fun in_class :: "(char \<times> char) list \<Rightarrow> char \<Rightarrow> bool" where
  "in_class [] x = False"
| "in_class ((lo, hi) # rs) x =
     (((of_char lo :: nat) \<le> of_char x \<and> (of_char x :: nat) \<le> of_char hi) \<or> in_class rs x)"

text \<open>
  The backtracking matcher.  \<open>ends r (s, c)\<close> lists, in the order in which the engine
  tries them, the ways \<open>r\<close> can match at the start of \<open>s\<close>: each is the text left
  over after the match together with the groups captured so far (newest first).  The
  engine takes the first one that lets the rest of the pattern succeed.  A greedy
  \<open>+\<close> tries a further round before it tries to stop; the engine refuses a
  further round after a round that consumed nothing.
\<close>

function ends :: "regex \<Rightarrow> string \<times> caps \<Rightarrow> (string \<times> caps) list" where
  "ends (Str l) (s, c) =
     (if l \<noteq> [] \<and> take (length l) s = l then [(drop (length l) s, c)] else [])"
| "ends (Class rs) (s, c) =
     (case s of [] \<Rightarrow> [] | x # xs \<Rightarrow> if in_class rs x then [(xs, c)] else [])"
| "ends (Seq p q) (s, c) = concat (map (ends q) (ends p (s, c)))"
| "ends (Alt p q) (s, c) = ends p (s, c) @ ends q (s, c)"
| "ends (Group n r) (s, c) =
     map (\<lambda>(s', c'). (s', (n, take (length s - length s') s) # c')) (ends r (s, c))"
| "ends (Plus r) (s, c) =
     concat (map (\<lambda>(s', c').
                    (if length s' < length s then ends (Plus r) (s', c') else []) @ [(s', c')])
                 (ends r (s, c)))"
  by pat_completeness auto
termination
  by (relation "measure size <*lex*> measure (\<lambda>(s, c). length s)") auto

declare ends.simps(6) [simp del]

text \<open>
  One attempt at a fixed position: the matched text, the captured groups and the text
  after the match.
\<close>

definition match_at :: "regex \<Rightarrow> string \<Rightarrow> (string \<times> caps \<times> string) option" where
  "match_at r s =
     (case ends r (s, []) of
        [] \<Rightarrow> None
      | (s', c) # _ \<Rightarrow> Some (take (length s - length s') s, c, s'))"

text \<open>\<open>re.search\<close>: the attempt is made at each position from left to right.\<close>

fun search :: "regex \<Rightarrow> string \<Rightarrow> (string \<times> caps \<times> string) option" where
  "search r [] = match_at r []"
| "search r (x # xs) =
     (case match_at r (x # xs) of Some m \<Rightarrow> Some m | None \<Rightarrow> search r xs)"

fun ngroups :: "regex \<Rightarrow> nat" where
  "ngroups (Str l) = 0"
| "ngroups (Class rs) = 0"
| "ngroups (Seq p q) = ngroups p + ngroups q"
| "ngroups (Alt p q) = ngroups p + ngroups q"
| "ngroups (Plus r) = ngroups r"
| "ngroups (Group n r) = Suc (ngroups r)"

text \<open>
  What \<open>re.findall\<close> reports for one match: the whole match when the pattern has no
  group, and the text of group 1 (empty when the group took no part) when it has one.
  With two or more groups Python reports tuples; no pattern handed to \<open>findall\<close> by
  the script has more than one group.
\<close>

definition item :: "regex \<Rightarrow> string \<Rightarrow> caps \<Rightarrow> string" where
  "item r m c =
     (if ngroups r = 0 then m else (case map_of c 1 of Some g \<Rightarrow> g | None \<Rightarrow> []))"


text \<open>
  The groups of a pattern, each with its number and its body, and \<open>re.fullmatch\<close>:
  some way of matching takes the whole text.
\<close>

fun groups :: "regex \<Rightarrow> (nat \<times> regex) list" where
  "groups (Str l) = []"
| "groups (Class rs) = []"
| "groups (Seq p q) = groups p @ groups q"
| "groups (Alt p q) = groups p @ groups q"
| "groups (Plus r) = groups r"
| "groups (Group n r) = (n, r) # groups r"

definition fullmatch :: "regex \<Rightarrow> string \<Rightarrow> bool" where
  "fullmatch r u = list_ex (\<lambda>(t, c). t = []) (ends r (u, []))"


text \<open>The literal text a pattern starts with, if it starts with one.\<close>

fun lit_prefix :: "regex \<Rightarrow> string" where
  "lit_prefix (Seq (Str l) q) = l"
| "lit_prefix r = []"


subsection \<open>The matcher against the language of a pattern\<close>

inductive_set rounds :: "string set \<Rightarrow> string set" for A :: "string set" where
  one: "x \<in> A \<Longrightarrow> x \<in> rounds A"
| more: "x \<in> A \<Longrightarrow> y \<in> rounds A \<Longrightarrow> x @ y \<in> rounds A"

fun lang :: "regex \<Rightarrow> string set" where
  "lang (Str l) = (if l = [] then {} else {l})"
| "lang (Class rs) = {[x] | x. in_class rs x}"
| "lang (Seq p q) = {x @ y | x y. x \<in> lang p \<and> y \<in> lang q}"
| "lang (Alt p q) = lang p \<union> lang q"
| "lang (Plus r) = rounds (lang r)"
| "lang (Group n r) = lang r"

lemma ends_Plus_mem:
  "(s', c') \<in> set (ends (Plus r) (s, c)) \<longleftrightarrow>
     (\<exists>t d. (t, d) \<in> set (ends r (s, c)) \<and>
        ((length t < length s \<and> (s', c') \<in> set (ends (Plus r) (t, d))) \<or> (s', c') = (t, d)))"
  by (subst ends.simps(6)) (auto split: if_splits)

lemma rounds_nonempty: "x \<in> rounds A \<Longrightarrow> [] \<notin> A \<Longrightarrow> x \<noteq> []"
  by (induction rule: rounds.induct) auto

lemma lang_nonempty: "[] \<notin> lang r"
proof (induction r)
  case (Plus r)
  then show ?case using rounds_nonempty[of "[]" "lang r"] by auto
qed auto

lemma ends_sound:
  "(s', c') \<in> set (ends r (s, c)) \<Longrightarrow> \<exists>m \<in> lang r. s = m @ s'"
proof (induction r "(s, c)" arbitrary: s c s' c' rule: ends.induct)
  case (1 l s c)
  from "1.prems" have l: "l \<noteq> []" "take (length l) s = l" "s' = drop (length l) s"
    by (auto split: if_splits)
  have "s = take (length l) s @ drop (length l) s" by simp
  with l show ?case by simp
next
  case (2 rs s c)
  then show ?case by (auto split: list.splits if_splits)
next
  case (3 p q s c)
  from "3.prems" obtain t d
    where 1: "(t, d) \<in> set (ends p (s, c))" and 2: "(s', c') \<in> set (ends q (t, d))"
    by auto
  from "3.hyps"(1)[OF 1] obtain m where m: "m \<in> lang p" "s = m @ t" by auto
  from "3.hyps"(2)[OF 1 2] obtain n where n: "n \<in> lang q" "t = n @ s'" by auto
  show ?case using m n by auto
next
  case (4 p q s c)
  from "4.prems"
  have "(s', c') \<in> set (ends p (s, c)) \<or> (s', c') \<in> set (ends q (s, c))" by simp
  then show ?case using "4.hyps" by (metis UnCI lang.simps(4))
next
  case (5 n r s c)
  from "5.prems" obtain d where "(s', d) \<in> set (ends r (s, c))" by auto
  from "5.hyps"[OF this] show ?case by simp
next
  case (6 r s c)
  from iffD1[OF ends_Plus_mem "6.prems"] obtain t d
    where 1: "(t, d) \<in> set (ends r (s, c))"
      and 2: "(length t < length s \<and> (s', c') \<in> set (ends (Plus r) (t, d))) \<or> (s', c') = (t, d)"
    by blast
  from "6.hyps"(1)[OF 1] obtain m where m: "m \<in> lang r" "s = m @ t" by auto
  from 2 show ?case
  proof
    assume a: "length t < length s \<and> (s', c') \<in> set (ends (Plus r) (t, d))"
    then have lt: "length t < length s" and mem: "(s', c') \<in> set (ends (Plus r) (t, d))"
      by simp_all
    from "6.hyps"(2)[OF 1 refl lt mem] obtain n where n: "n \<in> lang (Plus r)" "t = n @ s'"
      by auto
    have "m @ n \<in> rounds (lang r)" using m n by (auto intro: rounds.more)
    then show ?thesis using m n by auto
  next
    assume "(s', c') = (t, d)"
    then show ?thesis using m by (auto intro: rounds.one)
  qed
qed

lemma ends_complete:
  "m \<in> lang r \<Longrightarrow> \<exists>c'. (b, c') \<in> set (ends r (m @ b, c))"
proof (induction r arbitrary: m b c)
  case (Str l)
  then show ?case by (simp split: if_splits)
next
  case (Class rs)
  then show ?case by auto
next
  case (Alt p q)
  from Alt.prems have "m \<in> lang p \<or> m \<in> lang q" by simp
  then show ?case
  proof
    assume "m \<in> lang p"
    from Alt.IH(1)[OF this, of b c] show ?thesis by auto
  next
    assume "m \<in> lang q"
    from Alt.IH(2)[OF this, of b c] show ?thesis by auto
  qed
next
  case (Seq p q)
  then obtain x y where xy: "m = x @ y" "x \<in> lang p" "y \<in> lang q" by auto
  from Seq.IH(1)[OF xy(2), of "y @ b" c]
  obtain d where d: "(y @ b, d) \<in> set (ends p (x @ y @ b, c))" by auto
  from Seq.IH(2)[OF xy(3), of b d]
  obtain e where e: "(b, e) \<in> set (ends q (y @ b, d))" by auto
  have "(b, e) \<in> set (ends (Seq p q) (m @ b, c))"
    using d e xy(1) by (simp, blast)
  then show ?case by blast
next
  case (Plus r)
  from Plus.prems have "m \<in> rounds (lang r)" by simp
  then show ?case
  proof (induction arbitrary: c rule: rounds.induct)
    case (one x)
    from Plus.IH[OF one, of b c] obtain d where "(b, d) \<in> set (ends r (x @ b, c))" by auto
    then have "(b, d) \<in> set (ends (Plus r) (x @ b, c))"
      using iffD2[OF ends_Plus_mem[of b d r "x @ b" c]] by blast
    then show ?case by blast
  next
    case (more x y)
    from Plus.IH[OF more(1), of "y @ b" c]
    obtain d where "(y @ b, d) \<in> set (ends r (x @ y @ b, c))" by auto
    then have d: "(y @ b, d) \<in> set (ends r ((x @ y) @ b, c))" by simp
    from more(3)[of d] obtain e where e: "(b, e) \<in> set (ends (Plus r) (y @ b, d))" by auto
    have "x \<noteq> []" using more(1) lang_nonempty by metis
    then have lt: "length (y @ b) < length ((x @ y) @ b)" by simp
    have "(b, e) \<in> set (ends (Plus r) ((x @ y) @ b, c))"
      using iffD2[OF ends_Plus_mem[of b e r "(x @ y) @ b" c]] d e lt by blast
    then show ?case by blast
  qed
next
  case (Group n r)
  from Group.prems have "m \<in> lang r" by simp
  from Group.IH[OF this, of b c] obtain d where d: "(b, d) \<in> set (ends r (m @ b, c))" by auto
  have "(b, (n, take (length (m @ b) - length b) (m @ b)) # d)
          \<in> set (ends (Group n r) (m @ b, c))"
    unfolding ends.simps using d by (metis (mono_tags, lifting) case_prod_conv image_eqI set_map)
  then show ?case by blast
qed

text \<open>A successful attempt matches a word of the language and leaves the rest.\<close>

lemma match_at_Some:
  "match_at r s = Some (m, c, t) \<Longrightarrow> m \<in> lang r \<and> s = m @ t"
proof -
  assume a: "match_at r s = Some (m, c, t)"
  then obtain es where es: "ends r (s, []) = (t, c) # es" and m: "m = take (length s - length t) s"
    by (auto simp: match_at_def split: list.splits)
  then have "(t, c) \<in> set (ends r (s, []))" by simp
  from ends_sound[OF this] obtain m' where m': "m' \<in> lang r" "s = m' @ t" by auto
  then have "m = m'" using m by simp
  with m' show ?thesis by simp
qed

lemma match_at_None:
  "match_at r s = None \<longleftrightarrow> (\<forall>m t. s = m @ t \<longrightarrow> m \<notin> lang r)"
proof
  assume n: "match_at r s = None"
  then have e: "ends r (s, []) = []" by (auto simp: match_at_def split: list.splits)
  show "\<forall>m t. s = m @ t \<longrightarrow> m \<notin> lang r"
  proof (intro allI impI notI)
    fix m t assume "s = m @ t" "m \<in> lang r"
    with ends_complete[of m r t "[]"] e show False by auto
  qed
next
  assume a: "\<forall>m t. s = m @ t \<longrightarrow> m \<notin> lang r"
  show "match_at r s = None"
  proof (cases "match_at r s")
    case (Some x)
    obtain m c t where "x = (m, c, t)" by (cases x) auto
    with Some match_at_Some[of r s m c t] a show ?thesis by auto
  qed simp
qed

lemma search_Some:
  "search r s = Some (m, c, t) \<Longrightarrow> m \<in> lang r \<and> (\<exists>p. s = p @ m @ t)"
proof (induction s)
  case Nil
  then show ?case using match_at_Some[of r "[]" m c t] by auto
next
  case (Cons x xs)
  show ?case
  proof (cases "match_at r (x # xs)")
    case None
    with Cons.prems have "search r xs = Some (m, c, t)" by simp
    from Cons.IH[OF this] obtain p where "m \<in> lang r" "xs = p @ m @ t" by auto
    then have "m \<in> lang r \<and> x # xs = (x # p) @ m @ t" by simp
    then show ?thesis by blast
  next
    case (Some y)
    with Cons.prems have "match_at r (x # xs) = Some (m, c, t)" by simp
    from match_at_Some[OF this] have "m \<in> lang r \<and> x # xs = [] @ m @ t" by simp
    then show ?thesis by blast
  qed
qed

lemma search_shorter:
  "search r s = Some (m, c, t) \<Longrightarrow> length t < length s"
proof -
  assume "search r s = Some (m, c, t)"
  from search_Some[OF this] obtain p where m: "m \<in> lang r" and s: "s = p @ m @ t" by auto
  from m lang_nonempty have "m \<noteq> []" by metis
  with s show ?thesis by simp
qed

text \<open>
  \<open>re.findall\<close>: the matches from left to right, each search starting where the
  previous match ended.  No pattern of this fragment matches the empty text, so the
  scan always advances.
\<close>

function findall :: "regex \<Rightarrow> string \<Rightarrow> string list" where
  "findall r s =
     (case search r s of
        None \<Rightarrow> []
      | Some (m, c, t) \<Rightarrow> item r m c # findall r t)"
  by pat_completeness auto
termination
  by (relation "measure (\<lambda>(r, s). length s)") (auto dest: search_shorter)

declare findall.simps [simp del]


lemma lang_lit_prefix: "u \<in> lang r \<Longrightarrow> prefix (lit_prefix r) u"
  by (induction r rule: lit_prefix.induct) (auto split: if_splits)


subsection \<open>What a match captures\<close>

lemma fullmatch_lang: "fullmatch r u \<longleftrightarrow> u \<in> lang r"
proof
  assume "fullmatch r u"
  then obtain c where "([], c) \<in> set (ends r (u, []))"
    by (auto simp: fullmatch_def list_ex_iff)
  from ends_sound[OF this] show "u \<in> lang r" by simp
next
  assume "u \<in> lang r"
  from ends_complete[OF this, of "[]" "[]"] show "fullmatch r u"
    by (auto simp: fullmatch_def list_ex_iff)
qed

definition caps_of :: "regex \<Rightarrow> caps \<Rightarrow> bool" where
  "caps_of r new = (\<forall>x \<in> set new. \<exists>g. (fst x, g) \<in> set (groups r) \<and> snd x \<in> lang g)"

lemma caps_of_Nil: "caps_of r []"
  by (simp add: caps_of_def)

lemma ends_caps:
  "(s', c') \<in> set (ends r (s, c)) \<Longrightarrow> \<exists>new. c' = new @ c \<and> caps_of r new"
proof (induction r "(s, c)" arbitrary: s c s' c' rule: ends.induct)
  case (1 l s c)
  then have "c' = [] @ c" by (auto split: if_splits)
  with caps_of_Nil show ?case by blast
next
  case (2 rs s c)
  then have "c' = [] @ c" by (auto split: list.splits if_splits)
  with caps_of_Nil show ?case by blast
next
  case (3 p q s c)
  from "3.prems" obtain t d
    where 1: "(t, d) \<in> set (ends p (s, c))" and 2: "(s', c') \<in> set (ends q (t, d))"
    by auto
  from "3.hyps"(1)[OF 1] obtain n1 where n1: "d = n1 @ c" "caps_of p n1" by auto
  from "3.hyps"(2)[OF 1 2] obtain n2 where n2: "c' = n2 @ d" "caps_of q n2" by auto
  have "c' = (n2 @ n1) @ c" using n1 n2 by simp
  moreover have "caps_of (Seq p q) (n2 @ n1)"
    using n1(2) n2(2) by (fastforce simp: caps_of_def)
  ultimately show ?case by blast
next
  case (4 p q s c)
  from "4.prems"
  have "(s', c') \<in> set (ends p (s, c)) \<or> (s', c') \<in> set (ends q (s, c))" by simp
  then show ?case
  proof
    assume "(s', c') \<in> set (ends p (s, c))"
    from "4.hyps"(1)[OF this] obtain new where "c' = new @ c" "caps_of p new" by auto
    moreover then have "caps_of (Alt p q) new" by (fastforce simp: caps_of_def)
    ultimately show ?thesis by blast
  next
    assume "(s', c') \<in> set (ends q (s, c))"
    from "4.hyps"(2)[OF this] obtain new where "c' = new @ c" "caps_of q new" by auto
    moreover then have "caps_of (Alt p q) new" by (fastforce simp: caps_of_def)
    ultimately show ?thesis by blast
  qed
next
  case (5 n r s c)
  from "5.prems" obtain d where d: "(s', d) \<in> set (ends r (s, c))"
    and c': "c' = (n, take (length s - length s') s) # d" by auto
  from "5.hyps"[OF d] obtain new where new: "d = new @ c" "caps_of r new" by auto
  from ends_sound[OF d] obtain m where m: "m \<in> lang r" "s = m @ s'" by auto
  then have "take (length s - length s') s = m" by simp
  with c' new(1) have "c' = ((n, m) # new) @ c" by simp
  moreover have "caps_of (Group n r) ((n, m) # new)"
    using new(2) m(1) by (fastforce simp: caps_of_def)
  ultimately show ?case by blast
next
  case (6 r s c)
  from iffD1[OF ends_Plus_mem "6.prems"] obtain t d
    where 1: "(t, d) \<in> set (ends r (s, c))"
      and 2: "(length t < length s \<and> (s', c') \<in> set (ends (Plus r) (t, d))) \<or> (s', c') = (t, d)"
    by blast
  from "6.hyps"(1)[OF 1] obtain n1 where n1: "d = n1 @ c" "caps_of r n1" by auto
  then have n1': "caps_of (Plus r) n1" by (simp add: caps_of_def)
  from 2 show ?case
  proof
    assume a: "length t < length s \<and> (s', c') \<in> set (ends (Plus r) (t, d))"
    then have lt: "length t < length s" and mem: "(s', c') \<in> set (ends (Plus r) (t, d))"
      by simp_all
    from "6.hyps"(2)[OF 1 refl lt mem] obtain n2 where n2: "c' = n2 @ d" "caps_of (Plus r) n2"
      by auto
    have "c' = (n2 @ n1) @ c" using n1 n2 by simp
    moreover have "caps_of (Plus r) (n2 @ n1)"
      using n1' n2(2) by (fastforce simp: caps_of_def)
    ultimately show ?thesis by blast
  next
    assume "(s', c') = (t, d)"
    with n1 n1' show ?thesis by blast
  qed
qed

lemma match_at_caps: "match_at r s = Some (m, c, t) \<Longrightarrow> caps_of r c"
proof -
  assume "match_at r s = Some (m, c, t)"
  then obtain es where "ends r (s, []) = (t, c) # es"
    by (auto simp: match_at_def split: list.splits)
  then have "(t, c) \<in> set (ends r (s, []))" by simp
  from ends_caps[OF this] show ?thesis by simp
qed

lemma search_caps: "search r s = Some (m, c, t) \<Longrightarrow> caps_of r c"
proof (induction s)
  case Nil
  then show ?case using match_at_caps[of r "[]" m c t] by simp
next
  case (Cons x xs)
  then show ?case using match_at_caps[of r "x # xs" m c t]
    by (cases "match_at r (x # xs)") auto
qed

lemma item_cases:
  assumes "search r s = Some (m, c, t)"
  shows "(ngroups r = 0 \<and> item r m c = m \<and> m \<in> lang r)
         \<or> (ngroups r \<noteq> 0 \<and> (item r m c = [] \<or> (\<exists>g. (1, g) \<in> set (groups r) \<and> item r m c \<in> lang g)))"
proof (cases "ngroups r = 0")
  case True
  with search_Some[OF assms] show ?thesis by (simp add: item_def)
next
  case False
  show ?thesis
  proof (cases "map_of c 1")
    case None
    with False show ?thesis by (simp add: item_def)
  next
    case (Some g)
    then have "(1, g) \<in> set c" by (rule map_of_SomeD)
    with search_caps[OF assms] obtain b where "(1, b) \<in> set (groups r)" "g \<in> lang b"
      by (fastforce simp: caps_of_def)
    with False Some show ?thesis by (auto simp: item_def)
  qed
qed

lemma findall_items:
  "u \<in> set (findall r s) \<Longrightarrow>
     (ngroups r = 0 \<and> u \<in> lang r)
     \<or> (ngroups r \<noteq> 0 \<and> (u = [] \<or> (\<exists>g. (1, g) \<in> set (groups r) \<and> u \<in> lang g)))"
proof (induction r s rule: findall.induct)
  case (1 r s)
  show ?case
  proof (cases "search r s")
    case None
    with "1.prems" show ?thesis by (simp add: findall.simps)
  next
    case (Some y)
    obtain m c t where y: "y = (m, c, t)" by (cases y) auto
    with Some "1.prems" have "u = item r m c \<or> u \<in> set (findall r t)"
      by (simp add: findall.simps[of r s])
    then show ?thesis
    proof
      assume "u = item r m c"
      with item_cases[of r s m c t] Some y show ?thesis by auto
    next
      assume mem: "u \<in> set (findall r t)"
      from Some y have sm: "search r s = Some (m, c, t)" by simp
      show ?thesis by (rule "1.IH"[OF sm refl refl mem])
    qed
  qed
qed


section \<open>The mirror catalogue\<close>

record mirror =
  name :: string
  country :: string
  url :: string
  pattern :: regex

text \<open>The bracket expressions of the patterns, range by range as they are written.\<close>

definition alnum :: "(char \<times> char) list" where
  "alnum = [(CHR ''0'', CHR ''9''), (CHR ''A'', CHR ''Z''), (CHR ''a'', CHR ''z'')]"

definition alnum_dash :: "(char \<times> char) list" where
  "alnum_dash = [(CHR ''0'', CHR ''9''), (CHR ''A'', CHR ''Z''), (CHR ''a'', CHR ''z''),
                 (CHR ''-'', CHR ''-'')]"

definition num_lower_upper :: "(char \<times> char) list" where
  "num_lower_upper = [(CHR ''0'', CHR ''9''), (CHR ''a'', CHR ''z''), (CHR ''A'', CHR ''Z'')]"

text \<open>\<open>[0-9A-ZaZ]\<close>: the ranges \<open>0-9\<close> and \<open>A-Z\<close>, then the two characters \<open>a\<close> and \<open>Z\<close>.\<close>

definition aws_class :: "(char \<times> char) list" where
  "aws_class = [(CHR ''0'', CHR ''9''), (CHR ''A'', CHR ''Z''), (CHR ''a'', CHR ''a''),
                (CHR ''Z'', CHR ''Z'')]"

definition mirror_pages :: "mirror list" where
  "mirror_pages = [
    \<lparr>name = ''Hetzner Germany'', country = ''DE'', url = ''https://speed.hetzner.de/'',
      pattern = Seq (Str ''https://speed.hetzner.de/'')
                    (Seq (Plus (Class alnum)) (Str ''.bin''))\<rparr>,
    \<lparr>name = ''ThinkBroadband UK'', country = ''UK'', url = ''http://ipv4.download.thinkbroadband.com/'',
      pattern = Seq (Str ''http://ipv4.download.thinkbroadband.com/'')
                    (Seq (Plus (Class alnum)) (Str ''.zip''))\<rparr>,
    \<lparr>name = ''OVH France'', country = ''FR'', url = ''http://proof.ovh.net/files/'',
      pattern = Seq (Str ''http://proof.ovh.net/files/'')
                    (Seq (Plus (Class alnum)) (Seq (Str ''.'') (Group 1 (Alt (Str ''dat'') (Str ''zip'')))))\<rparr>,
    \<lparr>name = ''Tele2 Sweden'', country = ''SE'', url = ''http://speedtest.tele2.net/'',
      pattern = Seq (Str ''http://speedtest.tele2.net/'')
                    (Seq (Plus (Class alnum)) (Str ''.zip''))\<rparr>,
    \<lparr>name = ''Leaseweb NL'', country = ''NL'', url = ''https://mirror.nl.leaseweb.net/speedtest/'',
      pattern = Seq (Str ''https://mirror.nl.leaseweb.net/speedtest/'')
                    (Seq (Plus (Class alnum)) (Seq (Str ''.'') (Group 1 (Alt (Str ''bin'') (Str ''zip'')))))\<rparr>,
    \<lparr>name = ''Leaseweb DE'', country = ''DE'', url = ''https://mirror.de.leaseweb.net/speedtest/'',
      pattern = Seq (Str ''https://mirror.de.leaseweb.net/speedtest/'')
                    (Seq (Plus (Class alnum)) (Seq (Str ''.'') (Group 1 (Alt (Str ''bin'') (Str ''zip'')))))\<rparr>,
    \<lparr>name = ''Leaseweb US'', country = ''US'', url = ''https://mirror.us.leaseweb.net/speedtest/'',
      pattern = Seq (Str ''https://mirror.us.leaseweb.net/speedtest/'')
                    (Seq (Plus (Class alnum)) (Seq (Str ''.'') (Group 1 (Alt (Str ''bin'') (Str ''zip'')))))\<rparr>,
    \<lparr>name = ''Leaseweb SG'', country = ''SG'', url = ''https://mirror.sg.leaseweb.net/speedtest/'',
      pattern = Seq (Str ''https://mirror.sg.leaseweb.net/speedtest/'')
                    (Seq (Plus (Class alnum)) (Seq (Str ''.'') (Group 1 (Alt (Str ''bin'') (Str ''zip'')))))\<rparr>,
    \<lparr>name = ''Linode US'', country = ''US'', url = ''https://speedtest.newark.linode.com/'',
      pattern = Seq (Str ''https://speedtest.newark.linode.com/'')
                    (Seq (Plus (Class alnum_dash)) (Str ''.bin''))\<rparr>,
    \<lparr>name = ''Linode DE'', country = ''DE'', url = ''https://speedtest.frankfurt.linode.com/'',
      pattern = Seq (Str ''https://speedtest.frankfurt.linode.com/'')
                    (Seq (Plus (Class alnum_dash)) (Str ''.bin''))\<rparr>,
    \<lparr>name = ''Linode UK'', country = ''UK'', url = ''https://speedtest.london.linode.com/'',
      pattern = Seq (Str ''https://speedtest.london.linode.com/'')
                    (Seq (Plus (Class alnum_dash)) (Str ''.bin''))\<rparr>,
    \<lparr>name = ''Linode JP'', country = ''JP'', url = ''https://speedtest.tokyo2.linode.com/'',
      pattern = Seq (Str ''https://speedtest.tokyo2.linode.com/'')
                    (Seq (Plus (Class alnum_dash)) (Str ''.bin''))\<rparr>,
    \<lparr>name = ''Linode SG'', country = ''SG'', url = ''https://speedtest.singapore.linode.com/'',
      pattern = Seq (Str ''https://speedtest.singapore.linode.com/'')
                    (Seq (Plus (Class alnum_dash)) (Str ''.bin''))\<rparr>,
    \<lparr>name = ''Azure Global'', country = ''GLOBAL'', url = ''https://www.azurespeed.com/Azure/Download'',
      pattern = Seq (Str ''https://azurespeedtestfiles.blob.core.windows.net/blobtestfiles/test'')
                    (Seq (Plus (Class num_lower_upper)) (Str ''.db''))\<rparr>,
    \<lparr>name = ''AWS S3 US East'', country = ''US'', url = ''https://speedtest.s3.amazonaws.com/'',
      pattern = Seq (Str ''https://speedtest.s3.amazonaws.com/'')
                    (Seq (Plus (Class aws_class)) (Str ''.bin''))\<rparr>,
    \<lparr>name = ''DigitalOcean NYC1'', country = ''US'', url = ''https://s3.amazonaws.com/speedtest-nyc1.digitalocean.com/'',
      pattern = Seq (Str ''https://s3.amazonaws.com/speedtest-nyc1.digitalocean.com/'')
                    (Seq (Plus (Class alnum)) (Str ''.test''))\<rparr>
  ]"

section \<open>The network, the set order and the output file\<close>

text \<open>
  Everything the script takes from outside is a field of the world it runs in.
  \<open>http_get u\<close> is what \<open>requests.get(u, timeout=15)\<close> does: it raises, or it
  returns a response, of which the script reads the text only.  \<open>http_head u\<close> is
  what \<open>requests.head(u, timeout=10)\<close> does: it raises, or it returns a response,
  of which the script reads the status code only.  An exception is an instance of
  \<open>Exception\<close>, given by the text that \<open>str\<close> makes of it.  \<open>set_order\<close> fixes
  the order in which a Python set is iterated, which the language leaves open.
  \<open>open_out\<close> is the exception that opening the output file for writing raises,
  if any, and \<open>files\<close> the contents of the files before the run.  A run asks for
  each URL at most once, so one answer for each URL describes the network of a run.
  Text is a list of characters; a character outside ASCII matches no pattern of the
  script.
\<close>

datatype exn = Exception string

record world =
  http_get :: "string \<Rightarrow> exn + string"
  http_head :: "string \<Rightarrow> exn + nat"
  set_order :: "string list \<Rightarrow> nat list"
  open_out :: "exn option"
  files :: "string \<rightharpoonup> string"

text \<open>
  The requests library prepares the URL before any traffic, and a URL without a colon
  has no scheme: the library raises (\<open>MissingSchema\<close>) and sends nothing.
\<close>

definition prepare_url :: "string \<Rightarrow> exn option" where
  "prepare_url u =
     (if CHR '':'' \<in> set u then None else Some (Exception ''No scheme supplied''))"

definition requests_get :: "world \<Rightarrow> string \<Rightarrow> exn + string" where
  "requests_get w u = (case prepare_url u of Some e \<Rightarrow> Inl e | None \<Rightarrow> http_get w u)"

definition requests_head :: "world \<Rightarrow> string \<Rightarrow> exn + nat" where
  "requests_head w u = (case prepare_url u of Some e \<Rightarrow> Inl e | None \<Rightarrow> http_head w u)"

text \<open>
  Iterating \<open>set(xs)\<close>: the distinct elements of \<open>xs\<close>, each once, in an order the
  world chooses.  \<open>arrange ks ys\<close> picks the elements of \<open>ys\<close> one by one, the next
  one at index \<open>k mod length ys\<close> of those left; every order arises from some \<open>ks\<close>.
\<close>

function arrange :: "nat list \<Rightarrow> 'a list \<Rightarrow> 'a list" where
  "arrange ks [] = []"
| "arrange [] (y # ys) = y # ys"
| "arrange (k # ks) (y # ys) =
     (let i = k mod length (y # ys)
      in (y # ys) ! i # arrange ks (take i (y # ys) @ drop (Suc i) (y # ys)))"
  by pat_completeness auto
termination
  by (relation "measure (\<lambda>(ks, ys). length ys)") auto

definition set_iter :: "world \<Rightarrow> string list \<Rightarrow> string list" where
  "set_iter w xs = arrange (set_order w (remdups xs)) (remdups xs)"

section \<open>The script\<close>

definition is_alive :: "world \<Rightarrow> string \<Rightarrow> bool" where
  "is_alive w u = (case requests_head w u of Inl e \<Rightarrow> False | Inr status \<Rightarrow> status = 200)"

text \<open>\<open>([0-9]+)(MB|GB|Mb|Gb)\<close>\<close>

definition size_re :: regex where
  "size_re = Seq (Group 1 (Plus (Class [(CHR ''0'', CHR ''9'')])))
                 (Group 2 (Alt (Str ''MB'') (Alt (Str ''GB'') (Alt (Str ''Mb'') (Str ''Gb'')))))"

definition file_size_from_url :: "string \<Rightarrow> string" where
  "file_size_from_url u = (case search size_re u of Some (m, c, t) \<Rightarrow> m | None \<Rightarrow> ''file'')"

text \<open>
  A descriptor is the dictionary the script appends: its keys in the order in which
  they are written, each with its text.
\<close>

type_synonym site = "(string \<times> string) list"

definition descriptor :: "mirror \<Rightarrow> string \<Rightarrow> site" where
  "descriptor m u =
     [(''name'', name m @ '' '' @ file_size_from_url u), (''url'', u), (''country'', country m)]"

text \<open>The state of \<open>main\<close>'s loop: the list \<open>sites\<close> and the lines printed so far.\<close>

record state =
  sites :: "site list"
  out :: "string list"

definition probe :: "world \<Rightarrow> mirror \<Rightarrow> state \<Rightarrow> string \<Rightarrow> state" where
  "probe w m st u =
     (if is_alive w u then st\<lparr>sites := sites st @ [descriptor m u]\<rparr> else st)"

text \<open>
  The body of the loop over the mirrors.  Inside the \<open>try\<close> only the fetch can
  raise: \<open>findall\<close> is total on text, \<open>is_alive\<close> catches what the probe raises,
  and \<open>file_size_from_url\<close> and \<open>append\<close> do not raise.
\<close>

definition visit :: "world \<Rightarrow> state \<Rightarrow> mirror \<Rightarrow> state" where
  "visit w st m =
     (case requests_get w (url m) of
        Inl (Exception e) \<Rightarrow> st\<lparr>out := out st @ [''Failed to fetch '' @ url m @ '': '' @ e]\<rparr>
      | Inr text \<Rightarrow> foldl (probe w m) st (set_iter w (findall (pattern m) text)))"

text \<open>\<open>json.dump(sites, f, indent=2)\<close> on a list of dictionaries of strings.\<close>

definition hex_digit :: "nat \<Rightarrow> char" where
  "hex_digit n = ''0123456789abcdef'' ! (n mod 16)"

definition json_escape :: "char \<Rightarrow> string" where
  "json_escape x =
     (if x = CHR 0x22 then [CHR 0x5C, CHR 0x22]
      else if x = CHR 0x5C then [CHR 0x5C, CHR 0x5C]
      else if x = CHR 0x0A then [CHR 0x5C, CHR ''n'']
      else if x = CHR 0x0D then [CHR 0x5C, CHR ''r'']
      else if x = CHR 0x09 then [CHR 0x5C, CHR ''t'']
      else if x = CHR 0x08 then [CHR 0x5C, CHR ''b'']
      else if x = CHR 0x0C then [CHR 0x5C, CHR ''f'']
      else if (of_char x :: nat) < 32 \<or> 126 < (of_char x :: nat)
        then [CHR 0x5C, CHR ''u'', CHR ''0'', CHR ''0'',
              hex_digit (of_char x div 16), hex_digit (of_char x)]
      else [x])"

definition json_string :: "string \<Rightarrow> string" where
  "json_string s = [CHR 0x22] @ concat (map json_escape s) @ [CHR 0x22]"

fun join :: "string \<Rightarrow> string list \<Rightarrow> string" where
  "join sep [] = []"
| "join sep [x] = x"
| "join sep (x # y # ys) = x @ sep @ join sep (y # ys)"

definition json_object :: "site \<Rightarrow> string" where
  "json_object d =
     (if d = [] then ''{}''
      else ''{'' @ [CHR 0x0A]
           @ join ('','' @ [CHR 0x0A])
                  (map (\<lambda>(k, v). ''    '' @ json_string k @ '': '' @ json_string v) d)
           @ [CHR 0x0A] @ ''  }'')"

definition json_dump :: "site list \<Rightarrow> string" where
  "json_dump ds =
     (if ds = [] then ''[]''
      else ''['' @ [CHR 0x0A]
           @ join ('','' @ [CHR 0x0A]) (map (\<lambda>d. ''  '' @ json_object d) ds)
           @ [CHR 0x0A] @ '']'')"

text \<open>The decimal text of a number, as an f-string writes \<open>len(sites)\<close>.\<close>

fun str_nat :: "nat \<Rightarrow> string" where
  "str_nat n =
     (if n < 10 then [char_of (48 + n)] else str_nat (n div 10) @ [char_of (48 + n mod 10)])"

declare str_nat.simps [simp del]

text \<open>
  What a run leaves behind: the final value of \<open>sites\<close>, the lines printed, the files,
  and the exception that ended the run, if one did.
\<close>

record outcome =
  listed :: "site list"
  printed :: "string list"
  disk :: "string \<rightharpoonup> string"
  raised :: "exn option"

text \<open>
  \<open>main\<close> over a catalogue.  Opening the file with mode \<open>w\<close> truncates it; an
  exception of \<open>open\<close> is not caught, and ends the run before anything is written or
  the summary is printed.
\<close>

definition run :: "world \<Rightarrow> mirror list \<Rightarrow> outcome" where
  "run w ms =
     (let st = foldl (visit w) \<lparr>sites = [], out = []\<rparr> ms
      in case open_out w of
           Some e \<Rightarrow> \<lparr>listed = sites st, printed = out st, disk = files w, raised = Some e\<rparr>
         | None \<Rightarrow>
             \<lparr>listed = sites st,
              printed = out st @ [''Updated sites.jsonc with '' @ str_nat (length (sites st))
                                  @ '' alive entries.''],
              disk = (files w)(''../sites.jsonc'' \<mapsto> json_dump (sites st)),
              raised = None\<rparr>)"

definition main :: "world \<Rightarrow> outcome" where
  "main w = run w mirror_pages"

section \<open>The size token, as the specification words it\<close>

text \<open>
  The specification describes the label without a pattern: a size token is a numeric
  value immediately followed by one of the markers \<open>MB\<close>, \<open>GB\<close>, \<open>Mb\<close>,
  \<open>Gb\<close>.  \<open>token_at s\<close> is the size token that starts \<open>s\<close>, if there is one,
  \<open>first_token\<close> reads a text from left to right for the first position where a
  token starts, and \<open>no_token_before k u\<close> says that no token starts at any of the
  first \<open>k\<close> positions of \<open>u\<close>.
\<close>

definition is_digit :: "char \<Rightarrow> bool" where
  "is_digit x = in_class [(CHR ''0'', CHR ''9'')] x"

definition units :: "string list" where
  "units = [''MB'', ''GB'', ''Mb'', ''Gb'']"

definition size_token :: "string \<Rightarrow> bool" where
  "size_token t = (takeWhile is_digit t \<noteq> [] \<and> dropWhile is_digit t \<in> set units)"

definition token_at :: "string \<Rightarrow> string option" where
  "token_at s =
     (if takeWhile is_digit s \<noteq> [] \<and> take 2 (dropWhile is_digit s) \<in> set units
      then Some (takeWhile is_digit s @ take 2 (dropWhile is_digit s)) else None)"

fun first_token :: "string \<Rightarrow> string option" where
  "first_token [] = None"
| "first_token (x # xs) =
     (case token_at (x # xs) of Some t \<Rightarrow> Some t | None \<Rightarrow> first_token xs)"


definition no_token_before :: "nat \<Rightarrow> string \<Rightarrow> bool" where
  "no_token_before k u = list_all (\<lambda>i. token_at (drop i u) = None) [0..<k]"


section \<open>Reading the output back\<close>

text \<open>
  The reader of the output document: a JSON array of objects whose members are
  strings, the layout of the persisted list.  The text is cut into tokens, white space
  between them dropped, and the tokens are read as an array of objects.  A string
  token is read up to its closing quote, with the escapes of JSON undone; a code of
  \<open>\u\<close> beyond 255 is outside the characters of this model and is refused.
\<close>

datatype lexeme = LBracket | RBracket | LBrace | RBrace | Comma | Colon | Quoted string

definition hex_val :: "char \<Rightarrow> nat option" where
  "hex_val x =
     (let n = (of_char x :: nat)
      in if 48 \<le> n \<and> n \<le> 57 then Some (n - 48)
         else if 97 \<le> n \<and> n \<le> 102 then Some (n - 87)
         else if 65 \<le> n \<and> n \<le> 70 then Some (n - 55)
         else None)"

definition hex4 :: "char \<Rightarrow> char \<Rightarrow> char \<Rightarrow> char \<Rightarrow> nat option" where
  "hex4 a b x y =
     (case hex_val a of None \<Rightarrow> None | Some h1 \<Rightarrow>
      case hex_val b of None \<Rightarrow> None | Some h2 \<Rightarrow>
      case hex_val x of None \<Rightarrow> None | Some h3 \<Rightarrow>
      case hex_val y of None \<Rightarrow> None | Some h4 \<Rightarrow>
        Some (((h1 * 16 + h2) * 16 + h3) * 16 + h4))"

definition unescape :: "char \<Rightarrow> char option" where
  "unescape e =
     (if e = CHR 0x22 then Some (CHR 0x22)
      else if e = CHR 0x5C then Some (CHR 0x5C)
      else if e = CHR ''/'' then Some (CHR ''/'')
      else if e = CHR ''n'' then Some (CHR 0x0A)
      else if e = CHR ''r'' then Some (CHR 0x0D)
      else if e = CHR ''t'' then Some (CHR 0x09)
      else if e = CHR ''b'' then Some (CHR 0x08)
      else if e = CHR ''f'' then Some (CHR 0x0C)
      else None)"

definition push :: "char \<Rightarrow> (string \<times> string) option \<Rightarrow> (string \<times> string) option" where
  "push x r = (case r of None \<Rightarrow> None | Some (v, rest) \<Rightarrow> Some (x # v, rest))"

fun read_chars :: "string \<Rightarrow> (string \<times> string) option" where
  "read_chars [] = None"
| "read_chars (c # cs) =
     (if c = CHR 0x22 then Some ([], cs)
      else if c = CHR 0x5C then
        (case cs of
           [] \<Rightarrow> None
         | e # r \<Rightarrow>
             (if e = CHR ''u'' then
                (case r of
                   a # b # x # y # r' \<Rightarrow>
                     (case hex4 a b x y of
                        None \<Rightarrow> None
                      | Some n \<Rightarrow> if n < 256 then push (char_of n) (read_chars r') else None)
                 | _ \<Rightarrow> None)
              else (case unescape e of None \<Rightarrow> None | Some x \<Rightarrow> push x (read_chars r))))
      else if (of_char c :: nat) < 32 then None
      else push c (read_chars cs))"

lemma read_chars_shorter: "read_chars s = Some (v, r) \<Longrightarrow> length r < length s"
proof (induction s arbitrary: v r rule: read_chars.induct)
  case 1
  then show ?case by simp
next
  case (2 c cs)
  then show ?case
    by (auto simp: push_def split: if_splits list.splits option.splits) fastforce+
qed


lemma hex_digit_val: "n < 16 \<Longrightarrow> hex_val (hex_digit n) = Some n"
proof -
  have "list_all (\<lambda>i. hex_val (hex_digit i) = Some i) [0..<16]" by code_simp
  then show "n < 16 \<Longrightarrow> hex_val (hex_digit n) = Some n"
    by (simp add: list_all_iff)
qed

lemma hex_val_0: "hex_val (CHR ''0'') = Some 0"
  by code_simp

lemma hex4_byte:
  assumes "n < 256"
  shows "hex4 (CHR ''0'') (CHR ''0'') (hex_digit (n div 16)) (hex_digit n) = Some n"
proof -
  have a: "hex_val (hex_digit (n div 16)) = Some (n div 16)"
    using assms by (intro hex_digit_val) simp
  have "hex_digit n = hex_digit (n mod 16)" by (simp add: hex_digit_def)
  then have b: "hex_val (hex_digit n) = Some (n mod 16)"
    using hex_digit_val[of "n mod 16"] by simp
  show ?thesis by (simp add: hex4_def hex_val_0 a b)
qed

lemma of_char_less_256: "(of_char x :: nat) < 256"
proof -
  have "(of_char x :: nat) mod 256 = of_char x" by (rule of_char_mod_256)
  moreover have "(of_char x :: nat) mod 256 < 256" by simp
  ultimately show ?thesis by simp
qed

lemma read_chars_escape:
  "read_chars (json_escape x @ rest) = push x (read_chars rest)"
proof -
  consider (q) "x = CHR 0x22" | (b) "x = CHR 0x5C" | (n) "x = CHR 0x0A" | (r) "x = CHR 0x0D"
    | (t) "x = CHR 0x09" | (bs) "x = CHR 0x08" | (f) "x = CHR 0x0C"
    | (u) "x \<notin> {CHR 0x22, CHR 0x5C, CHR 0x0A, CHR 0x0D, CHR 0x09, CHR 0x08, CHR 0x0C}"
          "(of_char x :: nat) < 32 \<or> 126 < (of_char x :: nat)"
    | (p) "x \<notin> {CHR 0x22, CHR 0x5C, CHR 0x0A, CHR 0x0D, CHR 0x09, CHR 0x08, CHR 0x0C}"
          "\<not> ((of_char x :: nat) < 32 \<or> 126 < (of_char x :: nat))"
    by blast
  then show ?thesis
  proof cases
    case q then show ?thesis by (simp add: json_escape_def unescape_def)
  next
    case b then show ?thesis by (simp add: json_escape_def unescape_def)
  next
    case n then show ?thesis by (simp add: json_escape_def unescape_def)
  next
    case r then show ?thesis by (simp add: json_escape_def unescape_def)
  next
    case t then show ?thesis by (simp add: json_escape_def unescape_def)
  next
    case bs then show ?thesis by (simp add: json_escape_def unescape_def)
  next
    case f then show ?thesis by (simp add: json_escape_def unescape_def)
  next
    case u
    have e: "json_escape x = [CHR 0x5C, CHR ''u'', CHR ''0'', CHR ''0'',
              hex_digit (of_char x div 16), hex_digit (of_char x)]"
      using u by (simp add: json_escape_def)
    show ?thesis
      using hex4_byte[OF of_char_less_256[of x]] of_char_less_256[of x]
      by (simp add: e)
  next
    case p
    then have e: "json_escape x = [x]" by (simp add: json_escape_def)
    show ?thesis using p by (simp add: e)
  qed
qed

lemma read_chars_string:
  "read_chars (concat (map json_escape s) @ CHR 0x22 # rest) = Some (s, rest)"
proof (induction s)
  case Nil
  then show ?case by simp
next
  case (Cons x s)
  have "read_chars (concat (map json_escape (x # s)) @ CHR 0x22 # rest)
          = read_chars (json_escape x @ (concat (map json_escape s) @ CHR 0x22 # rest))"
    by simp
  also have "\<dots> = push x (read_chars (concat (map json_escape s) @ CHR 0x22 # rest))"
    by (rule read_chars_escape)
  finally show ?case using Cons by (simp add: push_def)
qed


definition is_ws :: "char \<Rightarrow> bool" where
  "is_ws x = (x = CHR '' '' \<or> x = CHR 0x0A \<or> x = CHR 0x0D \<or> x = CHR 0x09)"

definition emit :: "lexeme \<Rightarrow> lexeme list option \<Rightarrow> lexeme list option" where
  "emit t r = (case r of None \<Rightarrow> None | Some ts \<Rightarrow> Some (t # ts))"

function tokens :: "string \<Rightarrow> lexeme list option" where
  "tokens [] = Some []"
| "tokens (c # cs) =
     (if is_ws c then tokens cs
      else if c = CHR ''['' then emit LBracket (tokens cs)
      else if c = CHR '']'' then emit RBracket (tokens cs)
      else if c = CHR ''{'' then emit LBrace (tokens cs)
      else if c = CHR ''}'' then emit RBrace (tokens cs)
      else if c = CHR '','' then emit Comma (tokens cs)
      else if c = CHR '':'' then emit Colon (tokens cs)
      else if c = CHR 0x22 then
        (case read_chars cs of None \<Rightarrow> None | Some (v, r) \<Rightarrow> emit (Quoted v) (tokens r))
      else None)"
  by pat_completeness auto
termination
  by (relation "measure length") (auto dest: read_chars_shorter)

fun members :: "lexeme list \<Rightarrow> (site \<times> lexeme list) option" where
  "members (Quoted k # Colon # Quoted v # Comma # ts) =
     (case members ts of None \<Rightarrow> None | Some (ms, r) \<Rightarrow> Some ((k, v) # ms, r))"
| "members (Quoted k # Colon # Quoted v # RBrace # ts) = Some ([(k, v)], ts)"
| "members ts = None"

fun object :: "lexeme list \<Rightarrow> (site \<times> lexeme list) option" where
  "object (LBrace # RBrace # ts) = Some ([], ts)"
| "object (LBrace # ts) = members ts"
| "object ts = None"

lemma members_shorter: "members ts = Some (d, r) \<Longrightarrow> length r < length ts"
  by (induction ts arbitrary: d r rule: members.induct) (auto split: option.splits)

lemma object_shorter: "object ts = Some (d, r) \<Longrightarrow> length r < length ts"
  by (induction ts rule: object.induct) (auto dest: members_shorter)

function objects :: "lexeme list \<Rightarrow> site list option" where
  "objects ts =
     (case object ts of
        None \<Rightarrow> None
      | Some (d, r) \<Rightarrow>
          (case r of
             Comma # r' \<Rightarrow> (case objects r' of None \<Rightarrow> None | Some ds \<Rightarrow> Some (d # ds))
           | [RBracket] \<Rightarrow> Some [d]
           | _ \<Rightarrow> None))"
  by pat_completeness auto
termination
  by (relation "measure length") (auto dest: object_shorter)

declare objects.simps [simp del]

definition document :: "lexeme list \<Rightarrow> site list option" where
  "document ts =
     (case ts of
        LBracket # r \<Rightarrow> if r = [RBracket] then Some [] else objects r
      | _ \<Rightarrow> None)"

definition json_load :: "string \<Rightarrow> site list option" where
  "json_load s = (case tokens s of None \<Rightarrow> None | Some ts \<Rightarrow> document ts)"


fun between :: "lexeme list \<Rightarrow> lexeme list list \<Rightarrow> lexeme list" where
  "between sep [] = []"
| "between sep [x] = x"
| "between sep (x # y # ys) = x @ sep @ between sep (y # ys)"

definition member_tokens :: "string \<times> string \<Rightarrow> lexeme list" where
  "member_tokens kv = [Quoted (fst kv), Colon, Quoted (snd kv)]"

definition object_tokens :: "site \<Rightarrow> lexeme list" where
  "object_tokens d =
     (if d = [] then [LBrace, RBrace]
      else LBrace # between [Comma] (map member_tokens d) @ [RBrace])"

definition document_tokens :: "site list \<Rightarrow> lexeme list" where
  "document_tokens ds =
     (if ds = [] then [LBracket, RBracket]
      else LBracket # between [Comma] (map object_tokens ds) @ [RBracket])"

definition lexes :: "string \<Rightarrow> lexeme list \<Rightarrow> bool" where
  "lexes a ts = (\<forall>rest. tokens (a @ rest)
                     = (case tokens rest of None \<Rightarrow> None | Some us \<Rightarrow> Some (ts @ us)))"

lemma lexes_Nil: "lexes [] []"
  by (simp add: lexes_def split: option.splits)

lemma lexes_append: "lexes a ts \<Longrightarrow> lexes b us \<Longrightarrow> lexes (a @ b) (ts @ us)"
  by (simp add: lexes_def split: option.splits)

lemma lexes_ws: "is_ws x \<Longrightarrow> lexes [x] []"
  by (simp add: lexes_def split: option.splits)

lemma lexes_spaces: "list_all is_ws a \<Longrightarrow> lexes a []"
proof (induction a)
  case Nil
  show ?case by (rule lexes_Nil)
next
  case (Cons x a)
  then have "lexes [x] []" "lexes a []" by (simp_all add: lexes_ws)
  from lexes_append[OF this] show ?case by simp
qed

lemma lexes_punct:
  "lexes ''['' [LBracket]" "lexes '']'' [RBracket]" "lexes ''{'' [LBrace]" "lexes ''}'' [RBrace]"
  "lexes '','' [Comma]" "lexes '':'' [Colon]"
  by (simp_all add: lexes_def is_ws_def emit_def split: option.splits)

lemma lexes_string: "lexes (json_string s) [Quoted s]"
proof -
  have "tokens (json_string s @ rest)
          = (case tokens rest of None \<Rightarrow> None | Some us \<Rightarrow> Some ([Quoted s] @ us))" for rest
  proof -
    have "json_string s @ rest = CHR 0x22 # (concat (map json_escape s) @ CHR 0x22 # rest)"
      by (simp add: json_string_def)
    then show ?thesis
      by (simp add: is_ws_def read_chars_string emit_def split: option.splits)
  qed
  then show ?thesis by (simp add: lexes_def)
qed

lemma lexes_join:
  assumes "\<And>x. x \<in> set xs \<Longrightarrow> lexes (f x) (g x)" and "lexes sep st"
  shows "lexes (join sep (map f xs)) (between st (map g xs))"
  using assms(1)
proof (induction xs rule: induct_list012)
  case 1
  then show ?case by (simp add: lexes_Nil)
next
  case (2 x)
  then show ?case by simp
next
  case (3 x y zs)
  have a: "lexes (f x) (g x)" using 3(3) by simp
  have b: "lexes (join sep (map f (y # zs))) (between st (map g (y # zs)))"
    using 3(2) 3(3) by simp
  from lexes_append[OF a lexes_append[OF assms(2) b]] show ?case by simp
qed

lemma lexes_member:
  "lexes (''    '' @ json_string (fst kv) @ '': '' @ json_string (snd kv)) (member_tokens kv)"
proof -
  have 1: "lexes ''    '' []" by (rule lexes_spaces) (simp add: is_ws_def)
  have 2: "lexes '' '' []" by (rule lexes_spaces) (simp add: is_ws_def)
  have 3: "lexes '': '' [Colon]" using lexes_append[OF lexes_punct(6) 2] by simp
  from lexes_append[OF 1 lexes_append[OF lexes_string[of "fst kv"]
        lexes_append[OF 3 lexes_string[of "snd kv"]]]]
  show ?thesis by (simp add: member_tokens_def)
qed

lemma lexes_comma_newline: "lexes ('','' @ [CHR 0x0A]) [Comma]"
proof -
  have "lexes [CHR 0x0A] []" by (rule lexes_ws) (simp add: is_ws_def)
  from lexes_append[OF lexes_punct(5) this] show ?thesis by simp
qed

lemma lexes_object: "lexes (json_object d) (object_tokens d)"
proof (cases "d = []")
  case True
  have "lexes (''{'' @ ''}'') ([LBrace] @ [RBrace])"
    by (rule lexes_append[OF lexes_punct(3) lexes_punct(4)])
  with True show ?thesis by (simp add: json_object_def object_tokens_def)
next
  case False
  have nl: "lexes [CHR 0x0A] []" by (rule lexes_ws) (simp add: is_ws_def)
  have m: "lexes (join ('','' @ [CHR 0x0A])
                   (map (\<lambda>kv. ''    '' @ json_string (fst kv) @ '': '' @ json_string (snd kv)) d))
                 (between [Comma] (map member_tokens d))"
    by (rule lexes_join[OF lexes_member lexes_comma_newline])
  have sp: "lexes ''  '' []" by (rule lexes_spaces) (simp add: is_ws_def)
  have cl: "lexes ([CHR 0x0A] @ ''  }'') [RBrace]"
    using lexes_append[OF nl lexes_append[OF sp lexes_punct(4)]] by simp
  have op: "lexes (''{'' @ [CHR 0x0A]) [LBrace]"
    using lexes_append[OF lexes_punct(3) nl] by simp
  have e: "(\<lambda>(k, v). ''    '' @ json_string k @ '': '' @ json_string v)
             = (\<lambda>kv. ''    '' @ json_string (fst kv) @ '': '' @ json_string (snd kv))"
    by (simp add: fun_eq_iff split: prod.splits)
  from lexes_append[OF op lexes_append[OF m cl]] False show ?thesis
    by (simp add: json_object_def object_tokens_def split_def)
qed

lemma lexes_dump: "lexes (json_dump ds) (document_tokens ds)"
proof (cases "ds = []")
  case True
  have "lexes (''['' @ '']'') ([LBracket] @ [RBracket])"
    by (rule lexes_append[OF lexes_punct(1) lexes_punct(2)])
  with True show ?thesis by (simp add: json_dump_def document_tokens_def)
next
  case False
  have nl: "lexes [CHR 0x0A] []" by (rule lexes_ws) (simp add: is_ws_def)
  have sp: "lexes ''  '' []" by (rule lexes_spaces) (simp add: is_ws_def)
  have o: "lexes (''  '' @ json_object d) (object_tokens d)" for d
    using lexes_append[OF sp lexes_object[of d]] by simp
  have m: "lexes (join ('','' @ [CHR 0x0A]) (map (\<lambda>d. ''  '' @ json_object d) ds))
                 (between [Comma] (map object_tokens ds))"
    by (rule lexes_join[OF o lexes_comma_newline])
  have cl: "lexes ([CHR 0x0A] @ '']'') [RBracket]"
    using lexes_append[OF nl lexes_punct(2)] by simp
  have op: "lexes (''['' @ [CHR 0x0A]) [LBracket]"
    using lexes_append[OF lexes_punct(1) nl] by simp
  from lexes_append[OF op lexes_append[OF m cl]] False show ?thesis
    by (simp add: json_dump_def document_tokens_def)
qed

lemma tokens_dump: "tokens (json_dump ds) = Some (document_tokens ds)"
proof -
  from lexes_dump[of ds]
  have "tokens (json_dump ds @ []) = (case tokens [] of None \<Rightarrow> None
                                       | Some us \<Rightarrow> Some (document_tokens ds @ us))"
    unfolding lexes_def by (rule spec)
  then show ?thesis by simp
qed

lemma members_tokens:
  "d \<noteq> [] \<Longrightarrow> members (between [Comma] (map member_tokens d) @ RBrace # ts) = Some (d, ts)"
proof (induction d rule: induct_list012)
  case 1
  then show ?case by simp
next
  case (2 kv)
  then show ?case by (simp add: member_tokens_def)
next
  case (3 kv y zs)
  then show ?case by (simp add: member_tokens_def)
qed

lemma object_tokens_read: "object (object_tokens d @ ts) = Some (d, ts)"
proof (cases "d = []")
  case True
  then show ?thesis by (simp add: object_tokens_def)
next
  case False
  then obtain kv d' where d: "d = kv # d'" by (cases d) auto
  define body where "body = between [Comma] (map member_tokens d) @ RBrace # ts"
  have "\<exists>r. body = Quoted (fst kv) # r"
    unfolding body_def d by (cases d') (simp_all add: member_tokens_def)
  then obtain r where r: "body = Quoted (fst kv) # r" by blast
  have "object (LBrace # Quoted (fst kv) # r) = members (Quoted (fst kv) # r)" by simp
  then have 1: "object (LBrace # body) = members body" by (simp only: r)
  have 2: "members body = Some (d, ts)" unfolding body_def by (rule members_tokens[OF False])
  have 3: "object_tokens d @ ts = LBrace # body"
    using False by (simp add: object_tokens_def body_def)
  show ?thesis by (simp only: 1 2 3)
qed

lemma objects_tokens:
  "ds \<noteq> [] \<Longrightarrow> objects (between [Comma] (map object_tokens ds) @ [RBracket]) = Some ds"
proof (induction ds rule: induct_list012)
  case 1
  then show ?case by simp
next
  case (2 d)
  have "objects (object_tokens d @ [RBracket]) = Some [d]"
    by (subst objects.simps) (simp add: object_tokens_read)
  then show ?case by simp
next
  case (3 d y zs)
  have "objects (object_tokens d @ Comma # between [Comma] (map object_tokens (y # zs)) @ [RBracket])
          = Some (d # y # zs)"
    using 3(2) by (subst objects.simps) (simp add: object_tokens_read)
  then show ?case by simp
qed

lemma document_tokens_read: "document (document_tokens ds) = Some ds"
proof (cases "ds = []")
  case True
  then show ?thesis by (simp add: document_def document_tokens_def)
next
  case False
  then obtain d ds' where d: "ds = d # ds'" by (cases ds) auto
  have "between [Comma] (map object_tokens ds) @ [RBracket] \<noteq> [RBracket]"
    unfolding d by (cases ds') (auto simp: object_tokens_def)
  with objects_tokens[OF False] False show ?thesis
    by (simp add: document_def document_tokens_def)
qed

lemma json_load_dump: "json_load (json_dump ds) = Some ds"
  by (simp add: json_load_def tokens_dump document_tokens_read)


text \<open>
  Reading a decimal number, and the plain decimal form: digits only, and no leading
  zero but in \<open>0\<close> itself.
\<close>

definition read_nat :: "string \<Rightarrow> nat option" where
  "read_nat s =
     (if s \<noteq> [] \<and> list_all is_digit s
      then Some (foldl (\<lambda>a x. 10 * a + (of_char x - 48)) 0 s) else None)"

definition plain_decimal :: "string \<Rightarrow> bool" where
  "plain_decimal s = (s \<noteq> [] \<and> list_all is_digit s \<and> (length s = 1 \<or> hd s \<noteq> CHR ''0''))"

lemma digit_char: "d < 10 \<Longrightarrow> is_digit (char_of (48 + d)) \<and> (of_char (char_of (48 + d)) :: nat) = 48 + d"
  by (simp add: is_digit_def)

lemma str_nat_digits: "str_nat n \<noteq> [] \<and> list_all is_digit (str_nat n)"
proof (induction n rule: str_nat.induct)
  case (1 n)
  show ?case
  proof (cases "n < 10")
    case True
    with digit_char[of n] show ?thesis by (simp add: str_nat.simps[of n])
  next
    case False
    with 1 digit_char[of "n mod 10"] show ?thesis by (simp add: str_nat.simps[of n])
  qed
qed

lemma str_nat_value:
  "foldl (\<lambda>a x. 10 * a + (of_char x - 48)) 0 (str_nat n) = n"
proof (induction n rule: str_nat.induct)
  case (1 n)
  show ?case
  proof (cases "n < 10")
    case True
    with digit_char[of n] show ?thesis by (simp add: str_nat.simps[of n])
  next
    case False
    with 1 digit_char[of "n mod 10"] show ?thesis by (simp add: str_nat.simps[of n])
  qed
qed

lemma read_nat_str_nat: "read_nat (str_nat n) = Some n"
  by (simp add: read_nat_def str_nat_digits str_nat_value)

lemma str_nat_hd: "0 < n \<Longrightarrow> hd (str_nat n) \<noteq> CHR ''0''"
proof (induction n rule: str_nat.induct)
  case (1 n)
  show ?case
  proof (cases "n < 10")
    case True
    have "(of_char (char_of (48 + n)) :: nat) \<noteq> of_char (CHR ''0'')"
      using digit_char[OF True] "1.prems" by simp
    then have "char_of (48 + n) \<noteq> CHR ''0''" by metis
    with True show ?thesis by (simp add: str_nat.simps[of n])
  next
    case False
    then have "0 < n div 10" by simp
    with 1 False have "hd (str_nat (n div 10)) \<noteq> CHR ''0''" by simp
    with False str_nat_digits[of "n div 10"] show ?thesis by (simp add: str_nat.simps[of n])
  qed
qed

lemma str_nat_plain: "plain_decimal (str_nat n)"
proof (cases "n = 0")
  case True
  have "str_nat 0 = ''0''" by code_simp
  with True show ?thesis by (simp add: plain_decimal_def is_digit_def)
next
  case False
  with str_nat_hd[of n] str_nat_digits[of n] show ?thesis by (simp add: plain_decimal_def)
qed

section \<open>What one mirror contributes\<close>

text \<open>
  The candidate URLs of a mirror are what the loop over \<open>urls\<close> visits, in its
  order; the entries of a mirror are the descriptors its round of the loop appends.
\<close>

definition candidates :: "world \<Rightarrow> mirror \<Rightarrow> string list" where
  "candidates w m =
     (case requests_get w (url m) of
        Inl e \<Rightarrow> []
      | Inr text \<Rightarrow> set_iter w (findall (pattern m) text))"

definition entries :: "world \<Rightarrow> mirror \<Rightarrow> site list" where
  "entries w m = map (descriptor m) (filter (is_alive w) (candidates w m))"

lemma mset_pick:
  "i < length l \<Longrightarrow> mset l = add_mset (l ! i) (mset (take i l @ drop (Suc i) l))"
proof -
  assume i: "i < length l"
  have "mset (take i l @ l ! i # drop (Suc i) l) = add_mset (l ! i) (mset (take i l @ drop (Suc i) l))"
    by simp
  then show ?thesis using id_take_nth_drop[OF i] by simp
qed

lemma arrange_mset: "mset (arrange ks ys) = mset ys"
proof (induction ks ys rule: arrange.induct)
  case (3 k ks y ys)
  define l where "l = y # ys"
  define i where "i = k mod length (y # ys)"
  have i: "i < length l" unfolding i_def l_def by simp
  have "mset (arrange (k # ks) (y # ys)) = add_mset (l ! i) (mset (arrange ks (take i l @ drop (Suc i) l)))"
    by (simp add: i_def l_def Let_def)
  also have "\<dots> = add_mset (l ! i) (mset (take i l @ drop (Suc i) l))"
    using "3.IH"[OF i_def] by (simp add: l_def)
  also have "\<dots> = mset l" using mset_pick[OF i] by simp
  finally show ?case by (simp add: l_def)
qed simp_all

text \<open>Every order of the elements arises from some choice of indices.\<close>

lemma arrange_any_order: "mset zs = mset ys \<Longrightarrow> \<exists>ks. arrange ks ys = zs"
proof (induction zs arbitrary: ys)
  case Nil
  then have "ys = []" by simp
  then show ?case by simp
next
  case (Cons a zs)
  then have "a \<in> set ys" by (metis list.set_intros(1) mset_eq_setD)
  then obtain i where i: "i < length ys" "ys ! i = a" by (auto simp: in_set_conv_nth)
  from mset_pick[OF i(1)] Cons.prems i(2)
  have "mset zs = mset (take i ys @ drop (Suc i) ys)" by simp
  from Cons.IH[OF this] obtain ks where ks: "arrange ks (take i ys @ drop (Suc i) ys) = zs" by blast
  from i(1) obtain y ys' where y: "ys = y # ys'" by (cases ys) auto
  have "arrange (i # ks) ys = a # zs"
    using i ks unfolding y by (simp add: Let_def)
  then show ?case by blast
qed

lemma set_iter_set: "set (set_iter w xs) = set xs"
  using arrange_mset[where ks = "set_order w (remdups xs)" and ys = "remdups xs"]
  by (metis set_iter_def set_mset_mset set_remdups)

lemma set_iter_distinct: "distinct (set_iter w xs)"
  using arrange_mset[where ks = "set_order w (remdups xs)" and ys = "remdups xs"]
  by (metis set_iter_def distinct_remdups mset_eq_imp_distinct_iff)

lemma foldl_probe:
  "foldl (probe w m) st us
     = st\<lparr>sites := sites st @ map (descriptor m) (filter (is_alive w) us)\<rparr>"
  by (induction us arbitrary: st) (simp_all add: probe_def)

lemma visit_sites: "sites (visit w st m) = sites st @ entries w m"
  by (cases "requests_get w (url m)")
     (auto simp: visit_def entries_def candidates_def foldl_probe split: exn.splits)


lemma foldl_visit_sites:
  "sites (foldl (visit w) st ms) = sites st @ concat (map (entries w) ms)"
  by (induction ms arbitrary: st) (simp_all add: visit_sites)

lemma listed_run: "listed (run w ms) = concat (map (entries w) ms)"
  by (simp add: run_def Let_def foldl_visit_sites split: option.splits)

lemma raised_run: "raised (run w ms) = open_out w"
  by (simp add: run_def Let_def split: option.splits)






lemma descriptor_url: "map_of (descriptor m u) ''url'' = Some u"
  by (simp add: descriptor_def)

lemma entries_mem:
  "d \<in> set (entries w m) \<longleftrightarrow> (\<exists>u \<in> set (candidates w m). is_alive w u \<and> d = descriptor m u)"
  by (auto simp: entries_def)

lemma probe_prefix: "prefix (sites st) (sites (probe w m st u))"
  by (simp add: probe_def)

lemma visit_prefix: "prefix (sites st) (sites (visit w st m))"
  by (simp add: visit_sites)

lemma foldl_visit_prefix: "prefix (sites st) (sites (foldl (visit w) st ms))"
  by (simp add: foldl_visit_sites)


lemma entries_failed: "requests_get w (url m) = Inl e \<Longrightarrow> entries w m = []"
  by (simp add: entries_def candidates_def)


lemma entries_none_alive:
  "\<forall>u \<in> set (candidates w m). \<not> is_alive w u \<Longrightarrow> entries w m = []"
  by (simp add: entries_def filter_empty_conv)


section \<open>The search for the size pattern is the left-to-right reading\<close>

lemma rounds_singletons:
  "rounds {[x] | x. P x} = {ds. ds \<noteq> [] \<and> list_all P ds}"
proof (intro set_eqI iffI)
  fix ds assume "ds \<in> rounds {[x] | x. P x}"
  then show "ds \<in> {ds. ds \<noteq> [] \<and> list_all P ds}"
    by (induction rule: rounds.induct) auto
next
  fix ds assume "ds \<in> {ds. ds \<noteq> [] \<and> list_all P ds}"
  then have "ds \<noteq> []" "list_all P ds" by simp_all
  then show "ds \<in> rounds {[x] | x. P x}"
  proof (induction ds)
    case (Cons a ds)
    show ?case
    proof (cases "ds = []")
      case True
      with Cons.prems show ?thesis by (auto intro: rounds.one)
    next
      case False
      with Cons have "ds \<in> rounds {[x] | x. P x}" by simp
      moreover have "[a] \<in> {[x] | x. P x}" using Cons.prems by simp
      ultimately have "[a] @ ds \<in> rounds {[x] | x. P x}" by (rule rounds.more[rotated])
      then show ?thesis by simp
    qed
  qed simp
qed

lemma lang_size_re:
  "lang size_re = {ds @ un | ds un. ds \<noteq> [] \<and> list_all is_digit ds \<and> un \<in> set units}"
proof -
  have "{[x] | x. in_class [(CHR ''0'', CHR ''9'')] x} = {[x] | x. is_digit x}"
    by (simp add: is_digit_def)
  then have "lang (Plus (Class [(CHR ''0'', CHR ''9'')])) = {ds. ds \<noteq> [] \<and> list_all is_digit ds}"
    using rounds_singletons[of is_digit] by simp
  then show ?thesis
    by (auto simp: size_re_def units_def)
qed

lemma unit_shape: "un \<in> set units \<Longrightarrow> length un = 2 \<and> un \<noteq> [] \<and> \<not> is_digit (hd un)"
  by (auto simp: units_def is_digit_def)

lemma digits_then_unit:
  assumes "list_all is_digit ds" and "un \<in> set units"
  shows "takeWhile is_digit (ds @ un @ rest) = ds"
    and "dropWhile is_digit (ds @ un @ rest) = un @ rest"
proof -
  from unit_shape[OF assms(2)] obtain a b where un: "un = [a, b]" and a: "\<not> is_digit a"
    by (cases un; cases "tl un") auto
  have all: "\<forall>x \<in> set ds. is_digit x" using assms(1) by (simp add: list_all_iff)
  show "takeWhile is_digit (ds @ un @ rest) = ds"
    using all a un by (simp add: takeWhile_tail)
  show "dropWhile is_digit (ds @ un @ rest) = un @ rest"
    using all a un by (simp add: dropWhile_append3)
qed

lemma size_token_iff:
  "size_token t \<longleftrightarrow>
     (\<exists>ds un. t = ds @ un \<and> ds \<noteq> [] \<and> list_all is_digit ds \<and> un \<in> set units)"
proof
  assume "size_token t"
  then have "takeWhile is_digit t \<noteq> []" "dropWhile is_digit t \<in> set units"
    by (simp_all add: size_token_def)
  moreover have "t = takeWhile is_digit t @ dropWhile is_digit t" by simp
  moreover have "list_all is_digit (takeWhile is_digit t)"
    by (simp add: list_all_iff) (meson set_takeWhileD)
  ultimately show "\<exists>ds un. t = ds @ un \<and> ds \<noteq> [] \<and> list_all is_digit ds \<and> un \<in> set units"
    by blast
next
  assume "\<exists>ds un. t = ds @ un \<and> ds \<noteq> [] \<and> list_all is_digit ds \<and> un \<in> set units"
  then obtain ds un where t: "t = ds @ un" and ds: "ds \<noteq> []" "list_all is_digit ds"
    and un: "un \<in> set units" by blast
  from digits_then_unit[OF ds(2) un, of "[]"] t ds(1) un show "size_token t"
    by (simp add: size_token_def)
qed

lemma lang_size_re_token: "m \<in> lang size_re \<longleftrightarrow> size_token m"
  by (auto simp: lang_size_re size_token_iff)

lemma token_at_prefix: "size_token m \<Longrightarrow> token_at (m @ rest) = Some m"
proof -
  assume "size_token m"
  then obtain ds un where m: "m = ds @ un" and ds: "ds \<noteq> []" "list_all is_digit ds"
    and un: "un \<in> set units" using size_token_iff by blast
  from unit_shape[OF un] have l: "length un = 2" by simp
  from digits_then_unit[OF ds(2) un, of rest] m ds(1) un l show ?thesis
    by (simp add: token_at_def)
qed

lemma token_at_Some: "token_at s = Some t \<Longrightarrow> size_token t \<and> (\<exists>rest. s = t @ rest)"
proof -
  assume a: "token_at s = Some t"
  define ds where "ds = takeWhile is_digit s"
  define r where "r = dropWhile is_digit s"
  from a have ds: "ds \<noteq> []" and un: "take 2 r \<in> set units" and t: "t = ds @ take 2 r"
    by (auto simp: token_at_def ds_def r_def split: if_splits)
  have "list_all is_digit ds" unfolding ds_def
    by (simp add: list_all_iff) (meson set_takeWhileD)
  with ds un t have "size_token t" using size_token_iff by blast
  moreover have "s = ds @ take 2 r @ drop 2 r" by (simp add: ds_def r_def)
  then have "s = t @ drop 2 r" using t by simp
  ultimately show ?thesis by blast
qed

lemma match_at_size_re:
  "(match_at size_re s = None \<longleftrightarrow> token_at s = None)
   \<and> (match_at size_re s = Some (m, c, rest) \<longrightarrow> token_at s = Some m)"
proof -
  have 1: "match_at size_re s = Some (m, c, rest) \<Longrightarrow> token_at s = Some m" for m c rest
    using match_at_Some[of size_re s m c rest] token_at_prefix[of m rest]
    by (simp add: lang_size_re_token)
  have 2: "match_at size_re s = None \<Longrightarrow> token_at s = None"
  proof (rule ccontr)
    assume n: "match_at size_re s = None" and "token_at s \<noteq> None"
    then obtain t where "token_at s = Some t" by auto
    from token_at_Some[OF this] obtain rest where "size_token t" "s = t @ rest" by blast
    with n show False by (auto simp: match_at_None lang_size_re_token)
  qed
  have 3: "token_at s = None \<Longrightarrow> match_at size_re s = None"
  proof (cases "match_at size_re s")
    case (Some x)
    assume n: "token_at s = None"
    obtain m c rest where "x = (m, c, rest)" by (cases x) auto
    with Some 1 n show ?thesis by auto
  qed simp
  show ?thesis using 1 2 3 by blast
qed

lemma file_size_first_token:
  "file_size_from_url u = (case first_token u of Some t \<Rightarrow> t | None \<Rightarrow> ''file'')"
proof -
  have "(case search size_re u of Some (m, c, t) \<Rightarrow> m | None \<Rightarrow> ''file'')
          = (case first_token u of Some t \<Rightarrow> t | None \<Rightarrow> ''file'')"
  proof (induction u)
    case Nil
    have "token_at [] = None" by (simp add: token_at_def)
    then have "match_at size_re [] = None" using match_at_size_re[of "[]"] by simp
    then show ?case by simp
  next
    case (Cons x xs)
    show ?case
    proof (cases "match_at size_re (x # xs)")
      case None
      then have "token_at (x # xs) = None" using match_at_size_re[of "x # xs"] by simp
      with None Cons show ?thesis by simp
    next
      case (Some y)
      obtain m c rest where y: "y = (m, c, rest)" by (cases y) auto
      with Some have "token_at (x # xs) = Some m" using match_at_size_re[of "x # xs" m c rest] by simp
      with Some y show ?thesis by simp
    qed
  qed
  then show ?thesis by (simp add: file_size_from_url_def)
qed


lemma first_token_occurs:
  "first_token u = Some t \<Longrightarrow> size_token t \<and> (\<exists>p q. u = p @ t @ q)"
proof (induction u)
  case (Cons x xs)
  show ?case
  proof (cases "token_at (x # xs)")
    case None
    with Cons.prems have "first_token xs = Some t" by simp
    from Cons.IH[OF this] obtain p q where "size_token t" "xs = p @ t @ q" by blast
    then have "size_token t \<and> x # xs = (x # p) @ t @ q" by simp
    then show ?thesis by blast
  next
    case (Some y)
    with Cons.prems have "token_at (x # xs) = Some t" by simp
    from token_at_Some[OF this] obtain rest where "size_token t" "x # xs = [] @ t @ rest" by auto
    then show ?thesis by blast
  qed
qed simp

lemma size_token_nonempty: "size_token t \<Longrightarrow> t \<noteq> []"
  by (auto simp: size_token_def)

lemma first_token_finds: "size_token t \<Longrightarrow> first_token (p @ t @ q) \<noteq> None"
proof (induction p)
  case Nil
  from token_at_prefix[OF Nil, of q] size_token_nonempty[OF Nil] show ?case
    by (cases t) auto
next
  case (Cons a p)
  then show ?case by (cases "token_at (a # p @ t @ q)") auto
qed

lemma first_token_leftmost:
  assumes "size_token t"
    and "\<forall>p' t' q'. p @ t @ q = p' @ t' @ q' \<and> size_token t' \<longrightarrow> length p \<le> length p'"
  shows "first_token (p @ t @ q) = Some t"
  using assms(2)
proof (induction p)
  case Nil
  from token_at_prefix[OF assms(1), of q] size_token_nonempty[OF assms(1)] show ?case
    by (cases t) auto
next
  case (Cons a p)
  have none: "token_at (a # p @ t @ q) = None"
  proof (rule ccontr)
    assume "token_at (a # p @ t @ q) \<noteq> None"
    then obtain t' where "token_at (a # p @ t @ q) = Some t'" by auto
    from token_at_Some[OF this] obtain rest where "size_token t'" "a # p @ t @ q = t' @ rest"
      by blast
    then have "(a # p) @ t @ q = [] @ t' @ rest \<and> size_token t'" by simp
    with Cons.prems have "length (a # p) \<le> length ([] :: string)" by blast
    then show False by simp
  qed
  have "\<forall>p' t' q'. p @ t @ q = p' @ t' @ q' \<and> size_token t' \<longrightarrow> length p \<le> length p'"
  proof (intro allI impI)
    fix p' t' q' assume h: "p @ t @ q = p' @ t' @ q' \<and> size_token t'"
    then have "(a # p) @ t @ q = (a # p') @ t' @ q' \<and> size_token t'" by simp
    with Cons.prems have "length (a # p) \<le> length (a # p')" by blast
    then show "length p \<le> length p'" by simp
  qed
  from Cons.IH[OF this] none show ?case by simp
qed

lemma file_size_leftmost:
  assumes "size_token t"
    and "\<forall>p' t' q'. p @ t @ q = p' @ t' @ q' \<and> size_token t' \<longrightarrow> length p \<le> length p'"
  shows "file_size_from_url (p @ t @ q) = t"
  using first_token_leftmost[OF assms] by (simp add: file_size_first_token)

lemma file_size_token:
  "(\<exists>p t q. u = p @ t @ q \<and> size_token t) \<Longrightarrow>
     size_token (file_size_from_url u) \<and> (\<exists>p q. u = p @ file_size_from_url u @ q)"
proof -
  assume "\<exists>p t q. u = p @ t @ q \<and> size_token t"
  then obtain p t q where "u = p @ t @ q" "size_token t" by blast
  with first_token_finds[of t p q] obtain t' where t': "first_token u = Some t'" by auto
  from first_token_occurs[OF t'] t' show ?thesis by (simp add: file_size_first_token)
qed

lemma file_size_fallback:
  "\<not> (\<exists>p t q. u = p @ t @ q \<and> size_token t) \<Longrightarrow> file_size_from_url u = ''file''"
proof -
  assume n: "\<not> (\<exists>p t q. u = p @ t @ q \<and> size_token t)"
  have "first_token u = None"
  proof (cases "first_token u")
    case (Some t)
    from first_token_occurs[OF Some] n show ?thesis by blast
  qed simp
  then show ?thesis by (simp add: file_size_first_token)
qed

lemma no_token_beforeD:
  assumes "no_token_before k u" and "u = p' @ t' @ q'" and "size_token t'"
  shows "k \<le> length p'"
proof (rule ccontr)
  assume "\<not> k \<le> length p'"
  then have "length p' < k" by simp
  with assms(1) have "token_at (drop (length p') u) = None"
    by (simp add: no_token_before_def list_all_iff)
  moreover have "drop (length p') u = t' @ q'" using assms(2) by simp
  ultimately show False using token_at_prefix[OF assms(3), of q'] by simp
qed


lemma first_token_is_leftmost:
  "first_token u = Some t \<Longrightarrow>
     \<exists>p q. u = p @ t @ q
        \<and> (\<forall>p' t' q'. u = p' @ t' @ q' \<and> size_token t' \<longrightarrow> length p \<le> length p')"
proof (induction u)
  case (Cons x xs)
  show ?case
  proof (cases "token_at (x # xs)")
    case (Some y)
    with Cons.prems have "token_at (x # xs) = Some t" by simp
    from token_at_Some[OF this] obtain rest where "x # xs = [] @ t @ rest" by auto
    then show ?thesis by (metis list.size(3) zero_le)
  next
    case None
    with Cons.prems have "first_token xs = Some t" by simp
    from Cons.IH[OF this] obtain p q where xs: "xs = p @ t @ q"
      and left: "\<forall>p' t' q'. xs = p' @ t' @ q' \<and> size_token t' \<longrightarrow> length p \<le> length p'"
      by blast
    have "\<forall>p' t' q'. x # xs = p' @ t' @ q' \<and> size_token t' \<longrightarrow> length (x # p) \<le> length p'"
    proof (intro allI impI)
      fix p' t' q' assume h: "x # xs = p' @ t' @ q' \<and> size_token t'"
      show "length (x # p) \<le> length p'"
      proof (cases p')
        case Nil
        with h token_at_prefix[of t' q'] have "token_at (x # xs) = Some t'" by simp
        with None show ?thesis by simp
      next
        case (Cons a p'')
        with h have "xs = p'' @ t' @ q' \<and> size_token t'" by simp
        with left have "length p \<le> length p''" by blast
        with Cons show ?thesis by simp
      qed
    qed
    moreover have "x # xs = (x # p) @ t @ q" using xs by simp
    ultimately show ?thesis by blast
  qed
qed simp

lemma no_token_before_leftmost:
  "no_token_before (length p) u \<Longrightarrow>
     \<forall>p' t' q'. u = p' @ t' @ q' \<and> size_token t' \<longrightarrow> length p \<le> length p'"
  using no_token_beforeD by blast

section \<open>The catalogue's patterns\<close>

lemma catalogue_ngroups: "list_all (\<lambda>m. ngroups (pattern m) \<le> 1) mirror_pages"
  by (simp add: mirror_pages_def)

lemma catalogue_groups:
  "\<forall>m \<in> set mirror_pages. \<forall>x \<in> set (groups (pattern m)). lang (snd x) \<subseteq> {''dat'', ''zip'', ''bin''}"
  by (simp add: mirror_pages_def)

lemma no_colon_dead: "CHR '':'' \<notin> set u \<Longrightarrow> \<not> is_alive w u"
  by (simp add: is_alive_def requests_head_def prepare_url_def)

lemma catalogue_alive_match:
  assumes "m \<in> set mirror_pages" and "u \<in> set (candidates w m)" and "is_alive w u"
  shows "fullmatch (pattern m) u"
proof -
  from assms(2) obtain body where "u \<in> set (set_iter w (findall (pattern m) body))"
    by (auto simp: candidates_def split: sum.splits)
  then have "u \<in> set (findall (pattern m) body)" by (simp add: set_iter_set)
  from findall_items[OF this] show ?thesis
  proof
    assume "ngroups (pattern m) = 0 \<and> u \<in> lang (pattern m)"
    then show ?thesis by (simp add: fullmatch_lang)
  next
    assume "ngroups (pattern m) \<noteq> 0 \<and> (u = [] \<or> (\<exists>g. (1, g) \<in> set (groups (pattern m)) \<and> u \<in> lang g))"
    then have "u = [] \<or> (\<exists>g. (1, g) \<in> set (groups (pattern m)) \<and> u \<in> lang g)" by simp
    then have "CHR '':'' \<notin> set u"
    proof
      assume "u = []" then show ?thesis by simp
    next
      assume "\<exists>g. (1, g) \<in> set (groups (pattern m)) \<and> u \<in> lang g"
      then obtain g where g: "(1, g) \<in> set (groups (pattern m))" "u \<in> lang g" by blast
      with catalogue_groups assms(1) have "u \<in> {''dat'', ''zip'', ''bin''}" by fastforce
      then show ?thesis by auto
    qed
    with no_colon_dead assms(3) show ?thesis by blast
  qed
qed

lemma catalogue_prefixes:
  "list_all (\<lambda>m. list_all (\<lambda>m'. m = m' \<or> \<not> prefix (lit_prefix (pattern m)) (lit_prefix (pattern m')))
                          mirror_pages) mirror_pages"
  by code_simp

lemma catalogue_disjoint:
  assumes "m \<in> set mirror_pages" "m' \<in> set mirror_pages" "m \<noteq> m'"
    and "u \<in> lang (pattern m)" "u \<in> lang (pattern m')"
  shows False
proof -
  from assms(1-3) catalogue_prefixes
  have a: "\<not> prefix (lit_prefix (pattern m)) (lit_prefix (pattern m'))"
    and b: "\<not> prefix (lit_prefix (pattern m')) (lit_prefix (pattern m))"
    by (auto simp: list_all_iff)
  from lang_lit_prefix[OF assms(4)] lang_lit_prefix[OF assms(5)]
  have "prefix (lit_prefix (pattern m)) (lit_prefix (pattern m'))
        \<or> prefix (lit_prefix (pattern m')) (lit_prefix (pattern m))"
    by (rule prefix_same_cases)
  with a b show False by blast
qed

lemma catalogue_distinct: "distinct mirror_pages"
  by code_simp

lemma candidates_distinct: "distinct (candidates w m)"
  by (simp add: candidates_def set_iter_distinct split: sum.splits)

lemma entries_urls:
  "map (\<lambda>d. map_of d ''url'') (entries w m) = map Some (filter (is_alive w) (candidates w m))"
  by (simp add: entries_def descriptor_def comp_def)

lemma entries_urls_distinct: "distinct (map (\<lambda>d. map_of d ''url'') (entries w m))"
  by (simp add: entries_urls distinct_map candidates_distinct)

lemma distinct_concat_map:
  assumes "distinct ms" and "\<forall>m \<in> set ms. distinct (f m)"
    and "\<forall>m \<in> set ms. \<forall>m' \<in> set ms. m \<noteq> m' \<longrightarrow> set (f m) \<inter> set (f m') = {}"
  shows "distinct (concat (map f ms))"
  using assms by (induction ms) auto

lemma main_urls_distinct: "distinct (map (\<lambda>d. map_of d ''url'') (listed (main w)))"
proof -
  let ?f = "\<lambda>m. map (\<lambda>d. map_of d ''url'') (entries w m)"
  have disj: "set (?f m) \<inter> set (?f m') = {}"
    if "m \<in> set mirror_pages" "m' \<in> set mirror_pages" "m \<noteq> m'" for m m'
  proof (rule ccontr)
    assume "set (?f m) \<inter> set (?f m') \<noteq> {}"
    then obtain x where "x \<in> set (?f m)" "x \<in> set (?f m')" by blast
    then obtain u where u: "u \<in> set (candidates w m)" "is_alive w u" "u \<in> set (candidates w m')"
      by (auto simp: entries_urls)
    from catalogue_alive_match[OF that(1) u(1,2)] catalogue_alive_match[OF that(2) u(3,2)]
    have "u \<in> lang (pattern m)" "u \<in> lang (pattern m')" by (simp_all add: fullmatch_lang)
    with catalogue_disjoint[OF that] show False by blast
  qed
  have "distinct (concat (map ?f mirror_pages))"
    by (rule distinct_concat_map) (use catalogue_distinct entries_urls_distinct disj in blast)+
  then show ?thesis by (simp add: main_def listed_run map_concat comp_def)
qed

lemma distinct_count_le_1: "distinct (map f xs) \<Longrightarrow> length (filter (\<lambda>x. f x = y) xs) \<le> 1"
proof (induction xs)
  case (Cons a xs)
  then show ?case by (auto simp: filter_empty_conv image_iff)
qed simp

lemma hetzner_findall:
  "findall (pattern (mirror_pages ! 0))
     (''https://speed.hetzner.de/100MB.bin'' @ [CHR 0x0A] @ ''https://speed.hetzner.de/100MB.bin'')
   = [''https://speed.hetzner.de/100MB.bin'', ''https://speed.hetzner.de/100MB.bin'']"
  by code_simp

lemma hetzner_mirror:
  "name (mirror_pages ! 0) = ''Hetzner Germany'' \<and> url (mirror_pages ! 0) = ''https://speed.hetzner.de/''
   \<and> country (mirror_pages ! 0) = ''DE''"
  by (simp add: mirror_pages_def)

lemma hetzner_label: "file_size_from_url ''https://speed.hetzner.de/100MB.bin'' = ''100MB''"
  by code_simp

lemma arrange_single: "arrange ks [x] = [x]"
  by (cases ks) simp_all

lemma hetzner_scenario:
  assumes "requests_get w ''https://speed.hetzner.de/''
             = Inr (''https://speed.hetzner.de/100MB.bin'' @ [CHR 0x0A]
                    @ ''https://speed.hetzner.de/100MB.bin'')"
    and "is_alive w ''https://speed.hetzner.de/100MB.bin''"
  shows "listed (run w [mirror_pages ! 0])
           = [[(''name'', ''Hetzner Germany 100MB''), (''url'', ''https://speed.hetzner.de/100MB.bin''),
               (''country'', ''DE'')]]"
proof -
  have "candidates w (mirror_pages ! 0) = [''https://speed.hetzner.de/100MB.bin'']"
    using assms(1) hetzner_findall hetzner_mirror
    by (simp add: candidates_def set_iter_def arrange_single)
  then have "entries w (mirror_pages ! 0)
               = [descriptor (mirror_pages ! 0) ''https://speed.hetzner.de/100MB.bin'']"
    using assms(2) by (simp add: entries_def)
  then show ?thesis using hetzner_mirror hetzner_label
    by (simp add: listed_run descriptor_def)
qed

lemma catalogue_head: "mirror_pages = mirror_pages ! 0 # tl mirror_pages"
  by (simp add: mirror_pages_def)

lemma hetzner_scenario_main:
  assumes "requests_get w ''https://speed.hetzner.de/''
             = Inr (''https://speed.hetzner.de/100MB.bin'' @ [CHR 0x0A]
                    @ ''https://speed.hetzner.de/100MB.bin'')"
    and "is_alive w ''https://speed.hetzner.de/100MB.bin''"
    and "\<forall>m \<in> set (tl mirror_pages). \<exists>e. requests_get w (url m) = Inl e"
  shows "listed (main w)
           = [[(''name'', ''Hetzner Germany 100MB''), (''url'', ''https://speed.hetzner.de/100MB.bin''),
               (''country'', ''DE'')]]"
proof -
  have "\<forall>m \<in> set (tl mirror_pages). entries w m = []"
    using assms(3) entries_failed by blast
  then have "concat (map (entries w) (tl mirror_pages)) = []" by simp
  moreover have "listed (main w) = entries w (mirror_pages ! 0) @ concat (map (entries w) (tl mirror_pages))"
    unfolding main_def listed_run by (subst catalogue_head) simp
  moreover have "listed (run w [mirror_pages ! 0]) = entries w (mirror_pages ! 0)"
    by (simp add: listed_run)
  ultimately show ?thesis using hetzner_scenario[OF assms(1,2)] by simp
qed

section \<open>A world to run the script in\<close>

text \<open>
  Hetzner's index page lists one live file twice and one dead file, OVH's page links
  one file, and every other fetch times out.  The probe of the live file answers 200,
  one probe times out, every other probe answers 404.
\<close>

definition example_world :: world where
  "example_world =
     \<lparr>http_get = (\<lambda>u.
        if u = ''https://speed.hetzner.de/''
          then Inr (''https://speed.hetzner.de/100MB.bin'' @ [CHR 0x0A]
                    @ ''https://speed.hetzner.de/100MB.bin'' @ [CHR 0x0A]
                    @ ''https://speed.hetzner.de/10GB.bin'')
        else if u = ''http://proof.ovh.net/files/''
          then Inr ''<a href=http://proof.ovh.net/files/1Gb.dat>''
        else Inl (Exception ''timed out'')),
      http_head = (\<lambda>u.
        if u = ''https://speed.hetzner.de/100MB.bin'' then Inr 200
        else if u = ''https://speed.hetzner.de/1GB.bin'' then Inl (Exception ''timed out'')
        else Inr 404),
      set_order = (\<lambda>xs. [1]),
      open_out = None,
      files = [''../sites.jsonc'' \<mapsto> ''stale'']\<rparr>"

text \<open>
  Hetzner's index page holds one URL twice and nothing else, the probe of that URL
  answers 200, and every other fetch times out.
\<close>

definition duplicate_world :: world where
  "duplicate_world =
     \<lparr>http_get = (\<lambda>u.
        if u = ''https://speed.hetzner.de/''
          then Inr (''https://speed.hetzner.de/100MB.bin'' @ [CHR 0x0A]
                    @ ''https://speed.hetzner.de/100MB.bin'')
        else Inl (Exception ''timed out'')),
      http_head = (\<lambda>u.
        if u = ''https://speed.hetzner.de/100MB.bin'' then Inr 200 else Inr 404),
      set_order = (\<lambda>xs. []),
      open_out = None,
      files = Map.empty\<rparr>"


text \<open>
  Hetzner's index page links one live file whose name holds two size tokens.
\<close>

definition label_world :: world where
  "label_world =
     \<lparr>http_get = (\<lambda>u.
        if u = ''https://speed.hetzner.de/''
          then Inr ''https://speed.hetzner.de/1GBor100MB.bin''
        else Inl (Exception ''timed out'')),
      http_head = (\<lambda>u.
        if u = ''https://speed.hetzner.de/1GBor100MB.bin'' then Inr 200 else Inr 404),
      set_order = (\<lambda>xs. []),
      open_out = None,
      files = Map.empty\<rparr>"


text \<open>The output document with Hetzner's 100MB file as its only object.\<close>

definition hetzner_document :: string where
  "hetzner_document =
     ''['' @ [CHR 0x0A]
     @ ''  {'' @ [CHR 0x0A]
     @ ''    '' @ [CHR 0x22] @ ''name'' @ [CHR 0x22] @ '': ''
         @ [CHR 0x22] @ ''Hetzner Germany 100MB'' @ [CHR 0x22] @ '','' @ [CHR 0x0A]
     @ ''    '' @ [CHR 0x22] @ ''url'' @ [CHR 0x22] @ '': ''
         @ [CHR 0x22] @ ''https://speed.hetzner.de/100MB.bin'' @ [CHR 0x22] @ '','' @ [CHR 0x0A]
     @ ''    '' @ [CHR 0x22] @ ''country'' @ [CHR 0x22] @ '': ''
         @ [CHR 0x22] @ ''DE'' @ [CHR 0x22] @ [CHR 0x0A]
     @ ''  }'' @ [CHR 0x0A]
     @ '']''"

lemma hetzner_dump:
  "json_dump [[(''name'', ''Hetzner Germany 100MB''), (''url'', ''https://speed.hetzner.de/100MB.bin''),
               (''country'', ''DE'')]] = hetzner_document"
  by code_simp

text \<open>A world without a network: every fetch and every probe times out.\<close>

definition offline_world :: world where
  "offline_world =
     \<lparr>http_get = (\<lambda>u. Inl (Exception ''timed out'')),
      http_head = (\<lambda>u. Inl (Exception ''timed out'')),
      set_order = (\<lambda>xs. []),
      open_out = None,
      files = [''../sites.jsonc'' \<mapsto> ''stale'']\<rparr>"

lemma example_candidates:
  "candidates example_world (mirror_pages ! 0)
     = [''https://speed.hetzner.de/10GB.bin'', ''https://speed.hetzner.de/100MB.bin'']"
  by code_simp

lemma example_alive:
  "is_alive example_world ''https://speed.hetzner.de/100MB.bin''"
  "\<not> is_alive example_world ''https://speed.hetzner.de/10GB.bin''"
  by (simp_all add: is_alive_def requests_head_def prepare_url_def example_world_def)

lemma example_listed:
  "listed (main example_world)
     = [[(''name'', ''Hetzner Germany 100MB''), (''url'', ''https://speed.hetzner.de/100MB.bin''),
         (''country'', ''DE'')]]"
  by code_simp

lemma hetzner_in_catalogue: "mirror_pages ! 0 \<in> set mirror_pages"
  by (simp add: mirror_pages_def)

section \<open>Facts about single mirrors of the catalogue\<close>

lemma of_char_eq_97: "(of_char x :: nat) = 97 \<longleftrightarrow> x = CHR ''a''"
proof -
  have "(of_char x :: nat) = of_char (CHR ''a'') \<longleftrightarrow> x = CHR ''a''"
    by (simp only: of_char_eq_iff)
  then show ?thesis by simp
qed

lemma aws_class_chars:
  "in_class aws_class x \<longleftrightarrow>
     in_class [(CHR ''0'', CHR ''9'')] x \<or> in_class [(CHR ''A'', CHR ''Z'')] x \<or> x = CHR ''a''"
  using of_char_eq_97[of x] by (auto simp: aws_class_def)

lemma aws_class_lower: "in_class [(CHR ''b'', CHR ''z'')] x \<Longrightarrow> \<not> in_class aws_class x"
  by (auto simp: aws_class_def)

lemma aws_pattern:
  "name (mirror_pages ! 14) = ''AWS S3 US East''
   \<and> pattern (mirror_pages ! 14)
       = Seq (Str ''https://speedtest.s3.amazonaws.com/'') (Seq (Plus (Class aws_class)) (Str ''.bin''))"
  by (simp add: mirror_pages_def)

lemma aws_findall:
  "findall (pattern (mirror_pages ! 14)) ''https://speedtest.s3.amazonaws.com/100mb.bin'' = []
   \<and> findall (pattern (mirror_pages ! 14)) ''https://speedtest.s3.amazonaws.com/100MB.bin''
       = [''https://speedtest.s3.amazonaws.com/100MB.bin'']"
  by code_simp

lemma aws_lang:
  "u \<in> lang (pattern (mirror_pages ! 14)) \<longleftrightarrow>
     (\<exists>k. k \<noteq> [] \<and> list_all (in_class aws_class) k
          \<and> u = ''https://speedtest.s3.amazonaws.com/'' @ k @ ''.bin'')"
proof -
  have "lang (Plus (Class aws_class)) = {k. k \<noteq> [] \<and> list_all (in_class aws_class) k}"
    using rounds_singletons[of "in_class aws_class"] by simp
  then show ?thesis using aws_pattern by auto
qed

lemma aws_lower_stem:
  assumes "\<exists>x \<in> set stem. in_class [(CHR ''b'', CHR ''z'')] x"
  shows "\<not> fullmatch (pattern (mirror_pages ! 14))
             (''https://speedtest.s3.amazonaws.com/'' @ stem @ ''.bin'')
         \<and> ''https://speedtest.s3.amazonaws.com/'' @ stem @ ''.bin''
             \<notin> set (findall (pattern (mirror_pages ! 14)) page)"
proof -
  let ?u = "''https://speedtest.s3.amazonaws.com/'' @ stem @ ''.bin''"
  have n: "?u \<notin> lang (pattern (mirror_pages ! 14))"
  proof
    assume "?u \<in> lang (pattern (mirror_pages ! 14))"
    then obtain k where k: "list_all (in_class aws_class) k"
      and e: "?u = ''https://speedtest.s3.amazonaws.com/'' @ k @ ''.bin''"
      using aws_lang by blast
    from e have "stem @ ''.bin'' = k @ ''.bin''" by (simp only: same_append_eq)
    then have "stem = k" by (simp only: append_same_eq)
    with k have "\<forall>x \<in> set stem. in_class aws_class x" by (simp add: list_all_iff)
    with assms aws_class_lower show False by blast
  qed
  have "?u \<notin> set (findall (pattern (mirror_pages ! 14)) page)"
  proof
    assume "?u \<in> set (findall (pattern (mirror_pages ! 14)) page)"
    from findall_items[OF this] aws_pattern have "?u \<in> lang (pattern (mirror_pages ! 14))"
      by auto
    with n show False by blast
  qed
  with n show ?thesis by (simp add: fullmatch_lang)
qed

text \<open>A mirror of the catalogue whose pattern has a group never contributes.\<close>

lemma grouped_mirror_silent:
  assumes "m \<in> set mirror_pages" and "ngroups (pattern m) \<noteq> 0"
  shows "entries w m = []"
proof -
  have "\<not> is_alive w u" if u: "u \<in> set (candidates w m)" for u
  proof
    assume "is_alive w u"
    from u obtain body where "u \<in> set (set_iter w (findall (pattern m) body))"
      by (auto simp: candidates_def split: sum.splits)
    then have "u \<in> set (findall (pattern m) body)" by (simp add: set_iter_set)
    from findall_items[OF this] assms(2)
    have "u = [] \<or> (\<exists>g. (1, g) \<in> set (groups (pattern m)) \<and> u \<in> lang g)" by simp
    then have "CHR '':'' \<notin> set u"
    proof
      assume "u = []" then show ?thesis by simp
    next
      assume "\<exists>g. (1, g) \<in> set (groups (pattern m)) \<and> u \<in> lang g"
      then obtain g where "(1, g) \<in> set (groups (pattern m))" "u \<in> lang g" by blast
      with catalogue_groups assms(1) have "u \<in> {''dat'', ''zip'', ''bin''}" by fastforce
      then show ?thesis by auto
    qed
    with no_colon_dead \<open>is_alive w u\<close> show False by blast
  qed
  then show ?thesis by (simp add: entries_def filter_empty_conv)
qed

lemma ovh_silent: "entries w (mirror_pages ! 2) = []"
proof (rule grouped_mirror_silent)
  show "mirror_pages ! 2 \<in> set mirror_pages" by (simp add: mirror_pages_def)
  show "ngroups (pattern (mirror_pages ! 2)) \<noteq> 0" by (simp add: mirror_pages_def)
qed

lemma ovh_findall:
  "name (mirror_pages ! 2) = ''OVH France''
   \<and> findall (pattern (mirror_pages ! 2)) ''http://proof.ovh.net/files/1Gb.dat'' = [''dat'']
   \<and> candidates example_world (mirror_pages ! 2) = [''dat'']
   \<and> name (mirror_pages ! 0) = ''Hetzner Germany''
   \<and> findall (pattern (mirror_pages ! 0)) ''https://speed.hetzner.de/100MB.bin''
       = [''https://speed.hetzner.de/100MB.bin'']"
  by code_simp

section \<open>The claims\<close>

text \<open>
  Claim C1.  The URL extractor is \<open>set(re.findall(pattern, text))\<close>.  For a pattern
  with a capturing group, \<open>findall\<close> reports the text of the group and not the
  match: on OVH's pattern, which ends in \<open>(dat|zip)\<close>, a page holding the URL
  \<open>http://proof.ovh.net/files/1Gb.dat\<close> yields the candidate \<open>dat\<close>, which is not a
  URL, where the pattern of Hetzner, which has no group, yields the whole URL.  The
  probe of such a candidate raises, so OVH contributes no descriptor in any world.
\<close>

theorem findall_group_yields_extension:
  "name (mirror_pages ! 2) = ''OVH France''
   \<and> findall (pattern (mirror_pages ! 2)) ''http://proof.ovh.net/files/1Gb.dat'' = [''dat'']
   \<and> candidates example_world (mirror_pages ! 2) = [''dat'']
   \<and> name (mirror_pages ! 0) = ''Hetzner Germany''
   \<and> findall (pattern (mirror_pages ! 0)) ''https://speed.hetzner.de/100MB.bin''
       = [''https://speed.hetzner.de/100MB.bin'']
   \<and> entries w (mirror_pages ! 2) = []"
  using ovh_findall ovh_silent by blast

text \<open>
  Claim C2.  Every descriptor that the round of a mirror of the catalogue appends
  carries a URL that the mirror's pattern matches as a whole and whose probe returned
  with status 200 in this run; the list written is made of these rounds, one after the
  other.  The candidates of the five patterns with a group are file extensions, which
  have no scheme: their probe raises, so these mirrors append nothing.
\<close>

theorem descriptor_url_matches_and_alive:
  assumes "m \<in> set mirror_pages" and "d \<in> set (entries w m)"
  shows "(\<exists>u. d = descriptor m u \<and> map_of d ''url'' = Some u
              \<and> fullmatch (pattern m) u \<and> is_alive w u \<and> requests_head w u = Inr 200)
         \<and> sites (visit w st m) = sites st @ entries w m
         \<and> listed (main w) = concat (map (entries w) mirror_pages)"
proof -
  from assms(2) obtain u where u: "u \<in> set (candidates w m)" "is_alive w u" "d = descriptor m u"
    by (auto simp: entries_mem)
  from catalogue_alive_match[OF assms(1) u(1,2)] have f: "fullmatch (pattern m) u" .
  from u(2) have h: "requests_head w u = Inr 200"
    by (auto simp: is_alive_def split: sum.splits)
  from u f h descriptor_url[of m u] have
    "\<exists>u. d = descriptor m u \<and> map_of d ''url'' = Some u
              \<and> fullmatch (pattern m) u \<and> is_alive w u \<and> requests_head w u = Inr 200"
    by blast
  then show ?thesis using visit_sites listed_run main_def by metis
qed

theorem descriptor_url_matches_and_alive_witness:
  "mirror_pages ! 0 \<in> set mirror_pages
   \<and> descriptor (mirror_pages ! 0) ''https://speed.hetzner.de/100MB.bin''
       \<in> set (entries example_world (mirror_pages ! 0))
   \<and> fullmatch (pattern (mirror_pages ! 0)) ''https://speed.hetzner.de/100MB.bin''
   \<and> is_alive example_world ''https://speed.hetzner.de/100MB.bin''
   \<and> requests_head example_world ''https://speed.hetzner.de/100MB.bin'' = Inr 200"
proof -
  have 1: "descriptor (mirror_pages ! 0) ''https://speed.hetzner.de/100MB.bin''
             \<in> set (entries example_world (mirror_pages ! 0))"
    using example_alive by (simp add: entries_def example_candidates)
  from descriptor_url_matches_and_alive[OF hetzner_in_catalogue 1]
  obtain u where u: "map_of (descriptor (mirror_pages ! 0) ''https://speed.hetzner.de/100MB.bin'') ''url''
                       = Some u"
    "fullmatch (pattern (mirror_pages ! 0)) u" "is_alive example_world u"
    "requests_head example_world u = Inr 200"
    by blast
  from u(1) have "u = ''https://speed.hetzner.de/100MB.bin''" by (simp add: descriptor_url)
  with u 1 hetzner_in_catalogue show ?thesis by blast
qed

text \<open>
  Claim C3.  For a candidate URL of a mirror of the catalogue that is run, the output
  holds a descriptor with that URL exactly when the probe of the URL succeeds, and
  then it holds the descriptor this mirror builds for it.  No step of the run removes
  or changes a descriptor that is already on the list: the list before a probe, a
  mirror or a whole run is a prefix of the list after it.
\<close>

theorem descriptor_iff_alive:
  assumes "m \<in> set ms" and "u \<in> set (candidates w m)"
  shows "((\<exists>d \<in> set (listed (run w ms)). map_of d ''url'' = Some u) \<longleftrightarrow> is_alive w u)
         \<and> (descriptor m u \<in> set (listed (run w ms)) \<longleftrightarrow> is_alive w u)
         \<and> prefix (sites st) (sites (probe w m' st u'))
         \<and> prefix (sites st) (sites (visit w st m'))
         \<and> prefix (sites st) (sites (foldl (visit w) st ms'))"
proof -
  have a: "is_alive w u \<Longrightarrow> descriptor m u \<in> set (listed (run w ms))"
    using assms by (auto simp: listed_run entries_mem)
  have b: "\<exists>d \<in> set (listed (run w ms)). map_of d ''url'' = Some u \<Longrightarrow> is_alive w u"
    by (auto simp: listed_run entries_mem descriptor_url)
  have c: "descriptor m u \<in> set (listed (run w ms)) \<Longrightarrow> is_alive w u"
    using b descriptor_url by blast
  show ?thesis
    using a b c descriptor_url probe_prefix visit_prefix foldl_visit_prefix by blast
qed

theorem descriptor_iff_alive_witness:
  "mirror_pages ! 0 \<in> set mirror_pages
   \<and> ''https://speed.hetzner.de/100MB.bin'' \<in> set (candidates example_world (mirror_pages ! 0))
   \<and> is_alive example_world ''https://speed.hetzner.de/100MB.bin''
   \<and> descriptor (mirror_pages ! 0) ''https://speed.hetzner.de/100MB.bin''
       \<in> set (listed (main example_world))
   \<and> ''https://speed.hetzner.de/10GB.bin'' \<in> set (candidates example_world (mirror_pages ! 0))
   \<and> \<not> is_alive example_world ''https://speed.hetzner.de/10GB.bin''
   \<and> descriptor (mirror_pages ! 0) ''https://speed.hetzner.de/10GB.bin''
       \<notin> set (listed (main example_world))"
proof -
  have 1: "''https://speed.hetzner.de/100MB.bin'' \<in> set (candidates example_world (mirror_pages ! 0))"
    by (simp add: example_candidates)
  have 2: "''https://speed.hetzner.de/10GB.bin'' \<in> set (candidates example_world (mirror_pages ! 0))"
    by (simp add: example_candidates)
  show ?thesis
    using descriptor_iff_alive[OF hetzner_in_catalogue 1] descriptor_iff_alive[OF hetzner_in_catalogue 2]
      hetzner_in_catalogue 1 2 example_alive
    by (simp add: main_def)
qed

text \<open>
  Claim C4.  The output holds at most one descriptor for a URL, in the round of any
  mirror and in the whole run over the catalogue.  When Hetzner's page is the URL
  \<open>https://speed.hetzner.de/100MB.bin\<close> twice and the probe of that URL succeeds, the
  run over Hetzner alone lists exactly the object with name \<open>Hetzner Germany 100MB\<close>,
  that URL and country \<open>DE\<close>, and the document written is that one object; so does
  the run over the whole catalogue when every other fetch fails.
\<close>

theorem one_descriptor_per_url:
  "length (filter (\<lambda>d. map_of d ''url'' = Some u) (entries w m)) \<le> 1
   \<and> length (filter (\<lambda>d. map_of d ''url'' = Some u) (listed (main w))) \<le> 1
   \<and> (requests_get w ''https://speed.hetzner.de/''
           = Inr (''https://speed.hetzner.de/100MB.bin'' @ [CHR 0x0A]
                  @ ''https://speed.hetzner.de/100MB.bin'')
        \<and> is_alive w ''https://speed.hetzner.de/100MB.bin''
      \<longrightarrow> listed (run w [mirror_pages ! 0])
            = [[(''name'', ''Hetzner Germany 100MB''),
                (''url'', ''https://speed.hetzner.de/100MB.bin''), (''country'', ''DE'')]]
          \<and> (open_out w = None
               \<longrightarrow> disk (run w [mirror_pages ! 0]) ''../sites.jsonc'' = Some hetzner_document)
          \<and> ((\<forall>m \<in> set (tl mirror_pages). \<exists>e. requests_get w (url m) = Inl e)
               \<longrightarrow> listed (main w)
                     = [[(''name'', ''Hetzner Germany 100MB''),
                         (''url'', ''https://speed.hetzner.de/100MB.bin''), (''country'', ''DE'')]]))"
proof (intro conjI impI)
  show "length (filter (\<lambda>d. map_of d ''url'' = Some u) (entries w m)) \<le> 1"
    using entries_urls_distinct by (rule distinct_count_le_1)
  show "length (filter (\<lambda>d. map_of d ''url'' = Some u) (listed (main w))) \<le> 1"
    using main_urls_distinct by (rule distinct_count_le_1)
next
  assume a: "requests_get w ''https://speed.hetzner.de/''
           = Inr (''https://speed.hetzner.de/100MB.bin'' @ [CHR 0x0A]
                  @ ''https://speed.hetzner.de/100MB.bin'')
        \<and> is_alive w ''https://speed.hetzner.de/100MB.bin''"
  then show l: "listed (run w [mirror_pages ! 0])
            = [[(''name'', ''Hetzner Germany 100MB''),
                (''url'', ''https://speed.hetzner.de/100MB.bin''), (''country'', ''DE'')]]"
    using hetzner_scenario by blast
  assume "open_out w = None"
  then have "disk (run w [mirror_pages ! 0]) ''../sites.jsonc''
               = Some (json_dump (listed (run w [mirror_pages ! 0])))"
    by (simp add: run_def Let_def)
  then show "disk (run w [mirror_pages ! 0]) ''../sites.jsonc'' = Some hetzner_document"
    using l hetzner_dump by simp
next
  assume a: "requests_get w ''https://speed.hetzner.de/''
           = Inr (''https://speed.hetzner.de/100MB.bin'' @ [CHR 0x0A]
                  @ ''https://speed.hetzner.de/100MB.bin'')
        \<and> is_alive w ''https://speed.hetzner.de/100MB.bin''"
    and b: "\<forall>m \<in> set (tl mirror_pages). \<exists>e. requests_get w (url m) = Inl e"
  from a have 1: "requests_get w ''https://speed.hetzner.de/''
           = Inr (''https://speed.hetzner.de/100MB.bin'' @ [CHR 0x0A]
                  @ ''https://speed.hetzner.de/100MB.bin'')"
    and 2: "is_alive w ''https://speed.hetzner.de/100MB.bin''" by simp_all
  show "listed (main w)
          = [[(''name'', ''Hetzner Germany 100MB''),
              (''url'', ''https://speed.hetzner.de/100MB.bin''), (''country'', ''DE'')]]"
    by (rule hetzner_scenario_main[OF 1 2 b])
qed

theorem one_descriptor_per_url_witness:
  "requests_get duplicate_world ''https://speed.hetzner.de/''
     = Inr (''https://speed.hetzner.de/100MB.bin'' @ [CHR 0x0A] @ ''https://speed.hetzner.de/100MB.bin'')
   \<and> is_alive duplicate_world ''https://speed.hetzner.de/100MB.bin''
   \<and> open_out duplicate_world = None
   \<and> listed (run duplicate_world [mirror_pages ! 0])
       = [[(''name'', ''Hetzner Germany 100MB''),
           (''url'', ''https://speed.hetzner.de/100MB.bin''), (''country'', ''DE'')]]
   \<and> disk (run duplicate_world [mirror_pages ! 0]) ''../sites.jsonc'' = Some hetzner_document
   \<and> length (filter (\<lambda>d. map_of d ''url'' = Some ''https://speed.hetzner.de/100MB.bin'')
                      (listed (main duplicate_world))) \<le> 1
   \<and> listed (main duplicate_world)
       = [[(''name'', ''Hetzner Germany 100MB''),
           (''url'', ''https://speed.hetzner.de/100MB.bin''), (''country'', ''DE'')]]"
proof -
  have 1: "requests_get duplicate_world ''https://speed.hetzner.de/''
     = Inr (''https://speed.hetzner.de/100MB.bin'' @ [CHR 0x0A] @ ''https://speed.hetzner.de/100MB.bin'')"
    by (simp add: requests_get_def prepare_url_def duplicate_world_def)
  have 2: "is_alive duplicate_world ''https://speed.hetzner.de/100MB.bin''"
    by (simp add: is_alive_def requests_head_def prepare_url_def duplicate_world_def)
  have 3: "open_out duplicate_world = None" by (simp add: duplicate_world_def)
  note t = one_descriptor_per_url[of "''https://speed.hetzner.de/100MB.bin''" duplicate_world
             "mirror_pages ! 0"]
  from t 1 2 have 4: "listed (run duplicate_world [mirror_pages ! 0])
       = [[(''name'', ''Hetzner Germany 100MB''),
           (''url'', ''https://speed.hetzner.de/100MB.bin''), (''country'', ''DE'')]]" by blast
  from t 1 2 3 have 5: "disk (run duplicate_world [mirror_pages ! 0]) ''../sites.jsonc''
                          = Some hetzner_document" by blast
  from t have 6: "length (filter (\<lambda>d. map_of d ''url'' = Some ''https://speed.hetzner.de/100MB.bin'')
                      (listed (main duplicate_world))) \<le> 1" by blast
  have 7: "\<forall>m \<in> set (tl mirror_pages). \<exists>e. requests_get duplicate_world (url m) = Inl e"
    by (simp add: mirror_pages_def requests_get_def prepare_url_def duplicate_world_def)
  from t 1 2 7 have 8: "listed (main duplicate_world)
       = [[(''name'', ''Hetzner Germany 100MB''),
           (''url'', ''https://speed.hetzner.de/100MB.bin''), (''country'', ''DE'')]]" by blast
  from 1 2 3 4 5 6 8 show ?thesis by blast
qed



text \<open>
  Claim C6.  \<open>is_alive\<close> is true exactly when the header request returns with status
  200; it is false when the request raises, and false for every other status.
\<close>

theorem is_alive_iff_status_200:
  "(is_alive w u \<longleftrightarrow> requests_head w u = Inr 200)
   \<and> (\<forall>e. requests_head w u = Inl e \<longrightarrow> \<not> is_alive w u)
   \<and> (\<forall>status. requests_head w u = Inr status \<and> status \<noteq> 200 \<longrightarrow> \<not> is_alive w u)"
  by (auto simp: is_alive_def split: sum.splits)

theorem is_alive_iff_status_200_witness:
  "is_alive example_world ''https://speed.hetzner.de/100MB.bin''
   \<and> requests_head example_world ''https://speed.hetzner.de/1GB.bin''
       = Inl (Exception ''timed out'')
   \<and> \<not> is_alive example_world ''https://speed.hetzner.de/1GB.bin''
   \<and> requests_head example_world ''https://speed.hetzner.de/10GB.bin'' = Inr 404
   \<and> \<not> is_alive example_world ''https://speed.hetzner.de/10GB.bin''"
proof -
  have 1: "requests_head example_world ''https://speed.hetzner.de/100MB.bin'' = Inr 200"
    by (simp add: requests_head_def prepare_url_def example_world_def)
  have 2: "requests_head example_world ''https://speed.hetzner.de/1GB.bin''
             = Inl (Exception ''timed out'')"
    by (simp add: requests_head_def prepare_url_def example_world_def)
  have 3: "requests_head example_world ''https://speed.hetzner.de/10GB.bin'' = Inr 404"
    by (simp add: requests_head_def prepare_url_def example_world_def)
  show ?thesis
    using 1 2 3
      is_alive_iff_status_200[of example_world "''https://speed.hetzner.de/100MB.bin''"]
      is_alive_iff_status_200[of example_world "''https://speed.hetzner.de/1GB.bin''"]
      is_alive_iff_status_200[of example_world "''https://speed.hetzner.de/10GB.bin''"]
    by simp
qed

text \<open>
  Claim C7, as stated, fails: the label is the first size token of the URL, so a URL
  can end in \<open>100MB.bin\<close> and yet be labelled otherwise.  A Hetzner page that links
  the live file \<open>https://speed.hetzner.de/1GBor100MB.bin\<close> yields the name
  \<open>Hetzner Germany 1GB\<close>, and the URL \<open>http://10Gb.example.com/100MB.bin\<close> is
  labelled \<open>10Gb\<close>.
\<close>

theorem label_of_live_url_counterexample:
  "listed (main label_world)
     = [[(''name'', ''Hetzner Germany 1GB''), (''url'', ''https://speed.hetzner.de/1GBor100MB.bin''),
         (''country'', ''DE'')]]
   \<and> ''https://speed.hetzner.de/1GBor100MB.bin'' = ''https://speed.hetzner.de/1GBor'' @ ''100MB.bin''
   \<and> is_alive label_world ''https://speed.hetzner.de/1GBor100MB.bin''
   \<and> file_size_from_url ''http://10Gb.example.com/100MB.bin'' = ''10Gb''"
  by code_simp

text \<open>
  Claim C7, amended.  For every live URL the descriptor's name is the mirror's name,
  a space and the label of the URL.  When a size token occurs in the URL the label is
  a size token that occurs in it; when none occurs the label is \<open>file\<close>.  A URL
  ending \<open>100MB.bin\<close> in which no size token starts before that \<open>100MB\<close> is
  labelled \<open>100MB\<close>, and a URL ending \<open>file.bin\<close> with no size token is labelled
  \<open>file\<close>.
\<close>

theorem label_of_live_url:
  assumes "d \<in> set (entries w m)"
  shows "\<exists>u. is_alive w u \<and> map_of d ''url'' = Some u
           \<and> map_of d ''name'' = Some (name m @ '' '' @ file_size_from_url u)
           \<and> ((\<exists>p t q. u = p @ t @ q \<and> size_token t)
                \<longrightarrow> size_token (file_size_from_url u) \<and> (\<exists>p q. u = p @ file_size_from_url u @ q))
           \<and> (\<not> (\<exists>p t q. u = p @ t @ q \<and> size_token t) \<longrightarrow> file_size_from_url u = ''file'')
           \<and> (\<forall>p. u = p @ ''100MB.bin''
                    \<and> (\<forall>p' t' q'. u = p' @ t' @ q' \<and> size_token t' \<longrightarrow> length p \<le> length p')
                  \<longrightarrow> map_of d ''name'' = Some (name m @ '' 100MB''))
           \<and> (\<forall>p. u = p @ ''file.bin'' \<and> \<not> (\<exists>p t q. u = p @ t @ q \<and> size_token t)
                  \<longrightarrow> map_of d ''name'' = Some (name m @ '' file''))"
proof -
  from assms obtain u where u: "is_alive w u" "d = descriptor m u" by (auto simp: entries_mem)
  have n: "map_of d ''name'' = Some (name m @ '' '' @ file_size_from_url u)"
    and l: "map_of d ''url'' = Some u"
    using u(2) by (simp_all add: descriptor_def)
  have a: "(\<exists>p t q. u = p @ t @ q \<and> size_token t)
                \<longrightarrow> size_token (file_size_from_url u) \<and> (\<exists>p q. u = p @ file_size_from_url u @ q)"
    using file_size_token by blast
  have b: "\<not> (\<exists>p t q. u = p @ t @ q \<and> size_token t) \<longrightarrow> file_size_from_url u = ''file''"
    using file_size_fallback by blast
  have c: "\<forall>p. u = p @ ''100MB.bin''
                    \<and> (\<forall>p' t' q'. u = p' @ t' @ q' \<and> size_token t' \<longrightarrow> length p \<le> length p')
                  \<longrightarrow> map_of d ''name'' = Some (name m @ '' 100MB'')"
  proof (intro allI impI)
    fix p
    assume h: "u = p @ ''100MB.bin''
                 \<and> (\<forall>p' t' q'. u = p' @ t' @ q' \<and> size_token t' \<longrightarrow> length p \<le> length p')"
    have t: "size_token ''100MB''" by code_simp
    from h have eq: "u = p @ ''100MB'' @ ''.bin''" by simp
    from h have left: "\<forall>p' t' q'. u = p' @ t' @ q' \<and> size_token t' \<longrightarrow> length p \<le> length p'"
      by (rule conjunct2)
    have "file_size_from_url (p @ ''100MB'' @ ''.bin'') = ''100MB''"
      by (rule file_size_leftmost[OF t left[unfolded eq]])
    then have "file_size_from_url u = ''100MB''" by (simp only: eq)
    with n show "map_of d ''name'' = Some (name m @ '' 100MB'')" by simp
  qed
  have e: "\<forall>p. u = p @ ''file.bin'' \<and> \<not> (\<exists>p t q. u = p @ t @ q \<and> size_token t)
                  \<longrightarrow> map_of d ''name'' = Some (name m @ '' file'')"
  proof (intro allI impI)
    fix p
    assume "u = p @ ''file.bin'' \<and> \<not> (\<exists>p t q. u = p @ t @ q \<and> size_token t)"
    then have "\<not> (\<exists>p t q. u = p @ t @ q \<and> size_token t)" by (rule conjunct2)
    with b have "file_size_from_url u = ''file''" by (rule mp)
    with n show "map_of d ''name'' = Some (name m @ '' file'')" by simp
  qed
  from u(1) l n a b c e show ?thesis by blast
qed

theorem label_of_live_url_witness:
  "descriptor (mirror_pages ! 0) ''https://speed.hetzner.de/100MB.bin''
     \<in> set (entries example_world (mirror_pages ! 0))
   \<and> is_alive example_world ''https://speed.hetzner.de/100MB.bin''
   \<and> map_of (descriptor (mirror_pages ! 0) ''https://speed.hetzner.de/100MB.bin'') ''name''
       = Some ''Hetzner Germany 100MB''"
proof -
  have 1: "descriptor (mirror_pages ! 0) ''https://speed.hetzner.de/100MB.bin''
             \<in> set (entries example_world (mirror_pages ! 0))"
    using example_alive by (simp add: entries_def example_candidates)
  have "no_token_before (length ''https://speed.hetzner.de/'') ''https://speed.hetzner.de/100MB.bin''"
    by code_simp
  from no_token_before_leftmost[OF this]
  have 2: "\<forall>p' t' q'. ''https://speed.hetzner.de/100MB.bin'' = p' @ t' @ q' \<and> size_token t'
             \<longrightarrow> length ''https://speed.hetzner.de/'' \<le> length p'" .
  from label_of_live_url[OF 1] obtain u where
    u: "map_of (descriptor (mirror_pages ! 0) ''https://speed.hetzner.de/100MB.bin'') ''url'' = Some u"
    and c: "\<forall>p. u = p @ ''100MB.bin''
                    \<and> (\<forall>p' t' q'. u = p' @ t' @ q' \<and> size_token t' \<longrightarrow> length p \<le> length p')
                  \<longrightarrow> map_of (descriptor (mirror_pages ! 0) ''https://speed.hetzner.de/100MB.bin'') ''name''
                        = Some (name (mirror_pages ! 0) @ '' 100MB'')"
    by blast
  from u have u': "u = ''https://speed.hetzner.de/100MB.bin''" by (simp add: descriptor_url)
  have "u = ''https://speed.hetzner.de/'' @ ''100MB.bin''" using u' by simp
  with c 2 u' have "map_of (descriptor (mirror_pages ! 0) ''https://speed.hetzner.de/100MB.bin'') ''name''
                        = Some (name (mirror_pages ! 0) @ '' 100MB'')"
    by blast
  with 1 example_alive hetzner_mirror show ?thesis by simp
qed

text \<open>
  Claim C8.  The pattern of AWS S3 US East has the bracket expression \<open>[0-9A-ZaZ]\<close>,
  which accepts the digits, the upper-case letters and the one lower-case letter
  \<open>a\<close>, and so no lower-case letter from \<open>b\<close> to \<open>z\<close>.  A URL
  \<open>https://speedtest.s3.amazonaws.com/<stem>.bin\<close> whose stem holds such a letter
  does not match the pattern and is never a candidate, whatever the page: the page
  \<open>https://speedtest.s3.amazonaws.com/100mb.bin\<close> yields no candidate, where the
  same URL with the stem \<open>100MB\<close> is found.
\<close>

theorem aws_class_misses_lower_case:
  "name (mirror_pages ! 14) = ''AWS S3 US East''
   \<and> pattern (mirror_pages ! 14)
       = Seq (Str ''https://speedtest.s3.amazonaws.com/'') (Seq (Plus (Class aws_class)) (Str ''.bin''))
   \<and> (\<forall>x. in_class aws_class x \<longleftrightarrow>
          in_class [(CHR ''0'', CHR ''9'')] x \<or> in_class [(CHR ''A'', CHR ''Z'')] x \<or> x = CHR ''a'')
   \<and> (\<forall>x. in_class [(CHR ''b'', CHR ''z'')] x \<longrightarrow> \<not> in_class aws_class x)
   \<and> ((\<exists>x \<in> set stem. in_class [(CHR ''b'', CHR ''z'')] x)
        \<longrightarrow> \<not> fullmatch (pattern (mirror_pages ! 14))
                 (''https://speedtest.s3.amazonaws.com/'' @ stem @ ''.bin'')
            \<and> ''https://speedtest.s3.amazonaws.com/'' @ stem @ ''.bin''
                \<notin> set (findall (pattern (mirror_pages ! 14)) page))
   \<and> findall (pattern (mirror_pages ! 14)) ''https://speedtest.s3.amazonaws.com/100mb.bin'' = []
   \<and> findall (pattern (mirror_pages ! 14)) ''https://speedtest.s3.amazonaws.com/100MB.bin''
       = [''https://speedtest.s3.amazonaws.com/100MB.bin'']"
  using aws_class_chars aws_class_lower aws_pattern aws_findall aws_lower_stem by blast

theorem aws_class_misses_lower_case_witness:
  "in_class [(CHR ''b'', CHR ''z'')] (CHR ''m'') \<and> \<not> in_class aws_class (CHR ''m'')
   \<and> in_class aws_class (CHR ''a'') \<and> in_class aws_class (CHR ''M'')
   \<and> CHR ''m'' \<in> set ''100mb''
   \<and> \<not> fullmatch (pattern (mirror_pages ! 14)) ''https://speedtest.s3.amazonaws.com/100mb.bin''
   \<and> ''https://speedtest.s3.amazonaws.com/100mb.bin''
       \<notin> set (findall (pattern (mirror_pages ! 14))
                 (''<a href='' @ ''https://speedtest.s3.amazonaws.com/100mb.bin'' @ ''>''))"
proof -
  have 1: "in_class [(CHR ''b'', CHR ''z'')] (CHR ''m'')" by simp
  have 2: "CHR ''m'' \<in> set ''100mb''" by simp
  from 1 2 have 3: "\<exists>x \<in> set ''100mb''. in_class [(CHR ''b'', CHR ''z'')] x" by blast
  note t = aws_class_misses_lower_case[of "''100mb''"
             "''<a href='' @ ''https://speedtest.s3.amazonaws.com/100mb.bin'' @ ''>''"]
  from t 3 have 4:
    "\<not> fullmatch (pattern (mirror_pages ! 14))
         (''https://speedtest.s3.amazonaws.com/'' @ ''100mb'' @ ''.bin'')
     \<and> ''https://speedtest.s3.amazonaws.com/'' @ ''100mb'' @ ''.bin''
          \<notin> set (findall (pattern (mirror_pages ! 14))
                    (''<a href='' @ ''https://speedtest.s3.amazonaws.com/100mb.bin'' @ ''>''))"
    by blast
  from t 1 have 5: "\<not> in_class aws_class (CHR ''m'')" by blast
  from t have 6: "in_class aws_class (CHR ''a'')" by blast
  have 7: "in_class [(CHR ''A'', CHR ''Z'')] (CHR ''M'')" by simp
  from t 7 have 8: "in_class aws_class (CHR ''M'')" by blast
  from 1 2 4 5 6 8 show ?thesis by simp
qed

text \<open>
  Claim C9.  In every run that no exception ends, the catalogue writer has run: the
  output file holds the serialisation of the list and nothing of its former contents,
  every other file is as before, and the last line printed reports the length of the
  list.  The text written is a JSON array: read back, it gives the list, object by
  object and member by member.  The count printed is a plain decimal number that
  reads as the length of that array.  When every mirror's fetch fails or has no live
  candidate, the list is empty, the file holds the empty array \<open>[]\<close> and the count
  reported is 0.
\<close>

theorem writer_always_runs:
  assumes "raised (run w ms) = None"
  shows "disk (run w ms) = (files w)(''../sites.jsonc'' \<mapsto> json_dump (listed (run w ms)))
         \<and> (\<exists>doc. disk (run w ms) ''../sites.jsonc'' = Some doc
                  \<and> json_load doc = Some (listed (run w ms)))
         \<and> listed (run w ms) = concat (map (entries w) ms)
         \<and> printed (run w ms) \<noteq> []
         \<and> last (printed (run w ms))
             = ''Updated sites.jsonc with '' @ str_nat (length (listed (run w ms))) @ '' alive entries.''
         \<and> plain_decimal (str_nat (length (listed (run w ms))))
         \<and> read_nat (str_nat (length (listed (run w ms)))) = Some (length (listed (run w ms)))
         \<and> ((\<forall>m \<in> set ms. (\<exists>e. requests_get w (url m) = Inl e)
                             \<or> (\<forall>u \<in> set (candidates w m). \<not> is_alive w u))
              \<longrightarrow> listed (run w ms) = []
                  \<and> disk (run w ms) ''../sites.jsonc'' = Some ''[]''
                  \<and> last (printed (run w ms)) = ''Updated sites.jsonc with 0 alive entries.'')"
proof -
  from assms have o: "open_out w = None" by (simp add: raised_run)
  have 1: "disk (run w ms) = (files w)(''../sites.jsonc'' \<mapsto> json_dump (listed (run w ms)))"
    using o by (simp add: run_def Let_def)
  have 2: "printed (run w ms) \<noteq> []" using o by (simp add: run_def Let_def)
  have 3: "last (printed (run w ms))
             = ''Updated sites.jsonc with '' @ str_nat (length (listed (run w ms))) @ '' alive entries.''"
    using o by (simp add: run_def Let_def)
  have 4: "listed (run w ms) = []"
    if "\<forall>m \<in> set ms. (\<exists>e. requests_get w (url m) = Inl e)
                             \<or> (\<forall>u \<in> set (candidates w m). \<not> is_alive w u)"
  proof -
    have "\<forall>m \<in> set ms. entries w m = []"
      using that entries_failed entries_none_alive by blast
    then show ?thesis by (simp add: listed_run)
  qed
  have 5: "json_dump [] = ''[]''" by (simp add: json_dump_def)
  have "str_nat 0 = ''0''" by code_simp
  then have 6: "str_nat (length ([] :: site list)) = ''0''" by simp
  have 7: "\<exists>doc. disk (run w ms) ''../sites.jsonc'' = Some doc
                  \<and> json_load doc = Some (listed (run w ms))"
    using 1 json_load_dump[of "listed (run w ms)"] by simp
  show ?thesis
  proof (intro conjI impI)
    show "disk (run w ms) = (files w)(''../sites.jsonc'' \<mapsto> json_dump (listed (run w ms)))" by (rule 1)
    show "\<exists>doc. disk (run w ms) ''../sites.jsonc'' = Some doc
                  \<and> json_load doc = Some (listed (run w ms))" by (rule 7)
    show "listed (run w ms) = concat (map (entries w) ms)" by (rule listed_run)
    show "printed (run w ms) \<noteq> []" by (rule 2)
    show "last (printed (run w ms))
             = ''Updated sites.jsonc with '' @ str_nat (length (listed (run w ms))) @ '' alive entries.''" by (rule 3)
    show "plain_decimal (str_nat (length (listed (run w ms))))" by (rule str_nat_plain)
    show "read_nat (str_nat (length (listed (run w ms)))) = Some (length (listed (run w ms)))"
      by (rule read_nat_str_nat)
  next
    assume h: "\<forall>m \<in> set ms. (\<exists>e. requests_get w (url m) = Inl e)
                             \<or> (\<forall>u \<in> set (candidates w m). \<not> is_alive w u)"
    show "listed (run w ms) = []" using 4[OF h] .
    show "disk (run w ms) ''../sites.jsonc'' = Some ''[]''" using 1 4[OF h] 5 by simp
    show "last (printed (run w ms)) = ''Updated sites.jsonc with 0 alive entries.''"
      using 3 4[OF h] 6 by simp
  qed
qed

theorem writer_always_runs_witness:
  "raised (main offline_world) = None
   \<and> files offline_world ''../sites.jsonc'' = Some ''stale''
   \<and> listed (main offline_world) = []
   \<and> disk (main offline_world) ''../sites.jsonc'' = Some ''[]''
   \<and> json_load ''[]'' = Some []
   \<and> last (printed (main offline_world)) = ''Updated sites.jsonc with 0 alive entries.''
   \<and> raised (main example_world) = None
   \<and> files example_world ''../sites.jsonc'' = Some ''stale''
   \<and> disk (main example_world) ''../sites.jsonc'' = Some hetzner_document
   \<and> json_load hetzner_document
       = Some [[(''name'', ''Hetzner Germany 100MB''), (''url'', ''https://speed.hetzner.de/100MB.bin''),
                (''country'', ''DE'')]]
   \<and> last (printed (main example_world)) = ''Updated sites.jsonc with 1 alive entries.''
   \<and> read_nat ''1'' = Some 1"
proof -
  have 1: "raised (run offline_world mirror_pages) = None"
    by (simp add: raised_run offline_world_def)
  have 2: "\<forall>m \<in> set mirror_pages.
             (\<exists>e. requests_get offline_world (url m) = Inl e)
             \<or> (\<forall>u \<in> set (candidates offline_world m). \<not> is_alive offline_world u)"
    by (auto simp: requests_get_def offline_world_def split: option.splits)
  have 3: "files offline_world ''../sites.jsonc'' = Some ''stale''"
    by (simp add: offline_world_def)
  from writer_always_runs[OF 1] 2
  have a: "listed (run offline_world mirror_pages) = []
        \<and> disk (run offline_world mirror_pages) ''../sites.jsonc'' = Some ''[]''
        \<and> last (printed (run offline_world mirror_pages))
            = ''Updated sites.jsonc with 0 alive entries.''"
    by blast
  from writer_always_runs[OF 1] obtain doc
    where "disk (run offline_world mirror_pages) ''../sites.jsonc'' = Some doc"
      and "json_load doc = Some (listed (run offline_world mirror_pages))"
    by blast
  with a have b: "json_load ''[]'' = Some []" by simp
  have 4: "raised (run example_world mirror_pages) = None"
    by (simp add: raised_run example_world_def)
  have 5: "files example_world ''../sites.jsonc'' = Some ''stale''"
    by (simp add: example_world_def)
  have l: "listed (run example_world mirror_pages)
             = [[(''name'', ''Hetzner Germany 100MB''), (''url'', ''https://speed.hetzner.de/100MB.bin''),
                 (''country'', ''DE'')]]"
    using example_listed by (simp add: main_def)
  note t = writer_always_runs[OF 4]
  from t have "disk (run example_world mirror_pages)
                 = (files example_world)(''../sites.jsonc''
                      \<mapsto> json_dump (listed (run example_world mirror_pages)))"
    by blast
  then have c: "disk (run example_world mirror_pages) ''../sites.jsonc'' = Some hetzner_document"
    by (simp add: l hetzner_dump)
  from t obtain doc'
    where "disk (run example_world mirror_pages) ''../sites.jsonc'' = Some doc'"
      and "json_load doc' = Some (listed (run example_world mirror_pages))"
    by blast
  with c l have d: "json_load hetzner_document
       = Some [[(''name'', ''Hetzner Germany 100MB''), (''url'', ''https://speed.hetzner.de/100MB.bin''),
                (''country'', ''DE'')]]"
    by simp
  have "str_nat 1 = ''1''" by code_simp
  then have one: "str_nat (Suc 0) = ''1''" by simp
  from t have "last (printed (run example_world mirror_pages))
                 = ''Updated sites.jsonc with ''
                   @ str_nat (length (listed (run example_world mirror_pages))) @ '' alive entries.''"
    by blast
  then have e: "last (printed (run example_world mirror_pages))
                  = ''Updated sites.jsonc with 1 alive entries.''"
    by (simp add: l one)
  from t have "read_nat (str_nat (length (listed (run example_world mirror_pages))))
                 = Some (length (listed (run example_world mirror_pages)))"
    by blast
  then have f: "read_nat ''1'' = Some 1" by (simp add: l one)
  from 1 3 a b 4 5 c d e f show ?thesis unfolding main_def by blast
qed

text \<open>
  Claim C10.  The label is searched in the whole URL and is the size token that
  starts first: a size token before which no size token starts is the label,
  wherever in the URL it stands, and when any size token occurs the label is one that
  starts no later than every other.
\<close>

theorem size_label_leftmost:
  "(size_token t
      \<and> (\<forall>p' t' q'. p @ t @ q = p' @ t' @ q' \<and> size_token t' \<longrightarrow> length p \<le> length p')
    \<longrightarrow> file_size_from_url (p @ t @ q) = t
        \<and> descriptor m (p @ t @ q)
            = [(''name'', name m @ '' '' @ t), (''url'', p @ t @ q), (''country'', country m)])
   \<and> ((\<exists>p t q. u = p @ t @ q \<and> size_token t)
      \<longrightarrow> size_token (file_size_from_url u)
          \<and> (\<exists>p q. u = p @ file_size_from_url u @ q
                \<and> (\<forall>p' t' q'. u = p' @ t' @ q' \<and> size_token t' \<longrightarrow> length p \<le> length p')))"
proof (intro conjI impI)
  assume a: "size_token t
      \<and> (\<forall>p' t' q'. p @ t @ q = p' @ t' @ q' \<and> size_token t' \<longrightarrow> length p \<le> length p')"
  then show l: "file_size_from_url (p @ t @ q) = t" using file_size_leftmost by blast
  then show "descriptor m (p @ t @ q)
            = [(''name'', name m @ '' '' @ t), (''url'', p @ t @ q), (''country'', country m)]"
    by (simp add: descriptor_def)
next
  assume e: "\<exists>p t q. u = p @ t @ q \<and> size_token t"
  then obtain p t q where "u = p @ t @ q" "size_token t" by blast
  with first_token_finds[of t p q] obtain t' where t': "first_token u = Some t'" by auto
  then have f: "file_size_from_url u = t'" by (simp add: file_size_first_token)
  from first_token_occurs[OF t'] f show "size_token (file_size_from_url u)" by simp
  from first_token_is_leftmost[OF t'] f
  show "\<exists>p q. u = p @ file_size_from_url u @ q
                \<and> (\<forall>p' t' q'. u = p' @ t' @ q' \<and> size_token t' \<longrightarrow> length p \<le> length p')"
    by simp
qed

theorem size_label_leftmost_witness:
  "size_token ''10Gb''
   \<and> file_size_from_url ''http://10Gb.example.com/files/test.bin'' = ''10Gb''
   \<and> descriptor (mirror_pages ! 0) ''http://10Gb.example.com/files/test.bin''
       = [(''name'', ''Hetzner Germany 10Gb''), (''url'', ''http://10Gb.example.com/files/test.bin''),
          (''country'', ''DE'')]
   \<and> size_token ''1GB''
   \<and> file_size_from_url ''https://speed.hetzner.de/1GBor100MB.bin'' = ''1GB''"
proof -
  have 1: "size_token ''10Gb''" by code_simp
  have "no_token_before (length ''http://'') (''http://'' @ ''10Gb'' @ ''.example.com/files/test.bin'')"
    by code_simp
  from no_token_before_leftmost[OF this]
  have 2: "\<forall>p' t' q'. ''http://'' @ ''10Gb'' @ ''.example.com/files/test.bin'' = p' @ t' @ q'
             \<and> size_token t' \<longrightarrow> length ''http://'' \<le> length p'" .
  have 3: "size_token ''1GB''" by code_simp
  have "no_token_before (length ''https://speed.hetzner.de/'')
          (''https://speed.hetzner.de/'' @ ''1GB'' @ ''or100MB.bin'')"
    by code_simp
  from no_token_before_leftmost[OF this]
  have 4: "\<forall>p' t' q'. ''https://speed.hetzner.de/'' @ ''1GB'' @ ''or100MB.bin'' = p' @ t' @ q'
             \<and> size_token t' \<longrightarrow> length ''https://speed.hetzner.de/'' \<le> length p'" .
  from size_label_leftmost[of "''10Gb''" "''http://''" "''.example.com/files/test.bin''" "mirror_pages ! 0"] 1 2
  have 5: "file_size_from_url (''http://'' @ ''10Gb'' @ ''.example.com/files/test.bin'') = ''10Gb''
        \<and> descriptor (mirror_pages ! 0) (''http://'' @ ''10Gb'' @ ''.example.com/files/test.bin'')
            = [(''name'', name (mirror_pages ! 0) @ '' '' @ ''10Gb''),
               (''url'', ''http://'' @ ''10Gb'' @ ''.example.com/files/test.bin''),
               (''country'', country (mirror_pages ! 0))]"
    by blast
  from size_label_leftmost[of "''1GB''" "''https://speed.hetzner.de/''" "''or100MB.bin''"] 3 4
  have 6: "file_size_from_url (''https://speed.hetzner.de/'' @ ''1GB'' @ ''or100MB.bin'') = ''1GB''"
    by blast
  from 1 3 5 6 hetzner_mirror show ?thesis by simp
qed

end
